theory Spec2Isabelle
  imports Complex_Main
begin

section \<open>Data model\<close>

text \<open>
  The generators of \<^verbatim>\<open>terraingen.py\<close> (Python 2: \<^verbatim>\<open>/\<close> on two ints is floor
  division) work on a \<^verbatim>\<open>Terrain\<close>, a grid of heights addressed by \<^verbatim>\<open>terrain[x, y]\<close>.
  Heights are modelled as real numbers. Exceptions are values of the type \<open>error\<close>; a
  computation that may raise returns \<open>error + 'a\<close>.
\<close>

datatype error =
  InvalidDimension | OutOfBounds | ZeroDivisionError | TypeError | ValueError | IndexError | OverflowError

text \<open>
  Python numbers are ints or floats: \<^verbatim>\<open>2 ** side_exp\<close> is an int for \<open>side_exp \<ge> 0\<close> and a
  float otherwise. The record is therefore polymorphic in the type \<open>'n\<close> of dimensions and
  coordinates; it is used at \<open>int\<close>, and at \<open>real\<close> for a float side length, a float being
  represented by the real number it stands for.
\<close>

record 'n terrain =
  width :: 'n
  length_t :: 'n
  heights :: "'n \<times> 'n \<Rightarrow> real"

text \<open>
  Modelled from the spec: the class \<^verbatim>\<open>Terrain\<close> of module \<^verbatim>\<open>terrain\<close>, which
  \<^verbatim>\<open>terraingen.py\<close> imports. Creation fails with \<open>InvalidDimension\<close> if width \<open>\<le> 0\<close> or
  length \<open>\<le> 0\<close>. The spec leaves the heights of a fresh terrain undefined (or zero), so they
  are a parameter \<open>init\<close>, about which nothing is assumed.
\<close>

definition Terrain_create :: "('n::linordered_idom \<times> 'n \<Rightarrow> real) \<Rightarrow> 'n \<Rightarrow> 'n \<Rightarrow> error + 'n terrain" where
  "Terrain_create init w l =
     (if w \<le> 0 \<or> l \<le> 0 then Inl InvalidDimension
      else Inr \<lparr>width = w, length_t = l, heights = init\<rparr>)"

text \<open>
  Modelled from the spec: \<^verbatim>\<open>terrain[x, y]\<close>, the spec's \<open>get\<close>. It fails with
  \<open>OutOfBounds\<close> unless \<open>0 \<le> x < width\<close> and \<open>0 \<le> y < length\<close>.
\<close>

definition Terrain_get :: "'n::linordered_idom terrain \<Rightarrow> 'n \<times> 'n \<Rightarrow> error + real" where
  "Terrain_get terrain c =
     (if 0 \<le> fst c \<and> fst c < width terrain \<and> 0 \<le> snd c \<and> snd c < length_t terrain
      then Inr (heights terrain c) else Inl OutOfBounds)"

text \<open>
  Modelled from the spec: \<^verbatim>\<open>terrain[x, y] = value\<close>, the spec's \<open>set\<close>. Same bounds
  check; it overwrites the prior value of that one cell.
\<close>

definition Terrain_set :: "'n::linordered_idom terrain \<Rightarrow> 'n \<times> 'n \<Rightarrow> real \<Rightarrow> error + 'n terrain" where
  "Terrain_set terrain c v =
     (if 0 \<le> fst c \<and> fst c < width terrain \<and> 0 \<le> snd c \<and> snd c < length_t terrain
      then Inr (terrain\<lparr>heights := (heights terrain)(c := v)\<rparr>) else Inl OutOfBounds)"

section \<open>The diamond-square generator\<close>

text \<open>
  A generator holds \<open>amp_from_freq\<close>, here \<open>amp :: int \<Rightarrow> real\<close> (the frequency it is
  applied to is an int). The calls of \<^verbatim>\<open>random.random()\<close> are modelled by a source
  \<open>rng :: nat \<Rightarrow> real\<close> and the number \<open>s\<close> of draws made so far: a call returns \<open>rng s\<close>
  and moves on to \<open>s + 1\<close>.
\<close>

type_synonym gen_state = "int terrain \<times> nat"

text \<open>\<^verbatim>\<open>_initialize_corners\<close>: four writes, then the terrain is returned.\<close>

definition initialize_corners :: "'n::linordered_idom terrain \<Rightarrow> real \<Rightarrow> error + 'n terrain" where
  "initialize_corners terrain init_val =
     (case Terrain_set terrain (0, 0) init_val of Inl e \<Rightarrow> Inl e | Inr t1 \<Rightarrow>
     (case Terrain_set t1 (0, length_t t1 - 1) init_val of Inl e \<Rightarrow> Inl e | Inr t2 \<Rightarrow>
     (case Terrain_set t2 (width t2 - 1, 0) init_val of Inl e \<Rightarrow> Inl e | Inr t3 \<Rightarrow>
      Terrain_set t3 (width t3 - 1, length_t t3 - 1) init_val)))"

text \<open>
  The last lines of both update functions: the new height \<open>v = mean_height + offset\<close> is
  written to the cell, replaced by 1 or 0 when it is not within \<open>0 \<le> v \<le> 1\<close>.
\<close>

definition store_height :: "int terrain \<Rightarrow> int \<Rightarrow> int \<Rightarrow> real \<Rightarrow> error + int terrain" where
  "store_height terrain x y v =
     (if \<not> (0 \<le> v \<and> v \<le> 1) then
        (if v > 1 then Terrain_set terrain (x, y) 1 else Terrain_set terrain (x, y) 0)
      else Terrain_set terrain (x, y) v)"

text \<open>
  \<^verbatim>\<open>offset = (random.random() - 0.5) * self.amp_from_freq(frequency)\<close> with
  \<^verbatim>\<open>frequency = terrain.length / square_len\<close>, an integer floor division that raises
  \<open>ZeroDivisionError\<close> for a zero divisor.
\<close>

definition noise_offset :: "(int \<Rightarrow> real) \<Rightarrow> (nat \<Rightarrow> real) \<Rightarrow> int terrain \<Rightarrow> int \<Rightarrow> nat \<Rightarrow> error + real" where
  "noise_offset amp rng terrain square_len s =
     (if square_len = 0 then Inl ZeroDivisionError
      else let frequency = length_t terrain div square_len
           in Inr ((rng s - 1 / 2) * amp frequency))"

text \<open>\<^verbatim>\<open>_update_square\<close>: the midpoint of a square becomes the mean of its four corners
  plus the offset.\<close>

definition update_square ::
  "(int \<Rightarrow> real) \<Rightarrow> (nat \<Rightarrow> real) \<Rightarrow> int terrain \<Rightarrow> int \<Rightarrow> int \<Rightarrow> int \<Rightarrow> nat \<Rightarrow> error + gen_state" where
  "update_square amp rng terrain x y square_len s =
     (let half_len = square_len div 2 in
      (case Terrain_get terrain (x - half_len, y - half_len) of Inl e \<Rightarrow> Inl e | Inr a \<Rightarrow>
      (case Terrain_get terrain (x - half_len, y + half_len) of Inl e \<Rightarrow> Inl e | Inr b \<Rightarrow>
      (case Terrain_get terrain (x + half_len, y - half_len) of Inl e \<Rightarrow> Inl e | Inr c \<Rightarrow>
      (case Terrain_get terrain (x + half_len, y + half_len) of Inl e \<Rightarrow> Inl e | Inr d \<Rightarrow>
      (let mean_height = sum_list [a, b, c, d] / 4 in
      (case noise_offset amp rng terrain square_len s of Inl e \<Rightarrow> Inl e | Inr offset \<Rightarrow>
      (case store_height terrain x y (mean_height + offset) of Inl e \<Rightarrow> Inl e
       | Inr terrain' \<Rightarrow> Inr (terrain', s + 1)))))))))"

text \<open>
  One \<^verbatim>\<open>if cond: neighbours.append(terrain[c])\<close> of \<^verbatim>\<open>_update_diamond\<close>.
\<close>

definition append_neighbour :: "bool \<Rightarrow> int terrain \<Rightarrow> int \<times> int \<Rightarrow> real list \<Rightarrow> error + real list" where
  "append_neighbour cond terrain c neighbours =
     (if cond then
        (case Terrain_get terrain c of Inl e \<Rightarrow> Inl e | Inr v \<Rightarrow> Inr (neighbours @ [v]))
      else Inr neighbours)"

text \<open>
  The list \<^verbatim>\<open>neighbours\<close> that \<^verbatim>\<open>_update_diamond\<close> builds: the heights to the left,
  above, to the right and below, each read only if the cell is not on that border.
\<close>

definition diamond_neighbours :: "int terrain \<Rightarrow> int \<Rightarrow> int \<Rightarrow> int \<Rightarrow> error + real list" where
  "diamond_neighbours terrain x y half_len =
     (case append_neighbour (x \<noteq> 0) terrain (x - half_len, y) [] of Inl e \<Rightarrow> Inl e | Inr n1 \<Rightarrow>
     (case append_neighbour (y \<noteq> 0) terrain (x, y - half_len) n1 of Inl e \<Rightarrow> Inl e | Inr n2 \<Rightarrow>
     (case append_neighbour (x \<noteq> width terrain - 1) terrain (x + half_len, y) n2 of Inl e \<Rightarrow> Inl e | Inr n3 \<Rightarrow>
      append_neighbour (y \<noteq> length_t terrain - 1) terrain (x, y + half_len) n3)))"

text \<open>\<^verbatim>\<open>_update_diamond\<close>: the midpoint of a diamond becomes the mean of the neighbours
  read plus the offset. Dividing by \<^verbatim>\<open>float(len(neighbours))\<close> raises for an empty list.\<close>

definition update_diamond ::
  "(int \<Rightarrow> real) \<Rightarrow> (nat \<Rightarrow> real) \<Rightarrow> int terrain \<Rightarrow> int \<Rightarrow> int \<Rightarrow> int \<Rightarrow> nat \<Rightarrow> error + gen_state" where
  "update_diamond amp rng terrain x y diamond_len s =
     (let half_len = diamond_len div 2 in
      (case diamond_neighbours terrain x y half_len of Inl e \<Rightarrow> Inl e | Inr neighbours \<Rightarrow>
       if neighbours = [] then Inl ZeroDivisionError else
      (let mean_height = sum_list neighbours / real (length neighbours) in
      (case noise_offset amp rng terrain diamond_len s of Inl e \<Rightarrow> Inl e | Inr offset \<Rightarrow>
      (case store_height terrain x y (mean_height + offset) of Inl e \<Rightarrow> Inl e
       | Inr terrain' \<Rightarrow> Inr (terrain', s + 1))))))"

subsection \<open>Loops and the recursive subdivision\<close>

text \<open>
  Python's \<^verbatim>\<open>range(start, stop, step)\<close>, counting up for a positive and down for a
  negative step. (A zero step raises in Python; \<^verbatim>\<open>_divide\<close> reaches its loops only
  with \<open>half \<ge> 1\<close>, so its steps \<open>half\<close> and \<open>square_len\<close> are positive.)
\<close>

function py_range :: "int \<Rightarrow> int \<Rightarrow> int \<Rightarrow> int list" where
  "py_range start stop step =
     (if 0 < step \<and> start < stop then start # py_range (start + step) stop step
      else if step < 0 \<and> stop < start then start # py_range (start + step) stop step
      else [])"
  by pat_completeness auto
termination
  by (relation "measure (\<lambda>(start, stop, step). nat (if 0 < step then stop - start else start - stop))") auto

declare py_range.simps [simp del]

text \<open>A \<^verbatim>\<open>for\<close> loop whose body updates the state and may raise: the first
  exception ends the loop.\<close>

fun for_loop :: "'a list \<Rightarrow> ('a \<Rightarrow> 'st \<Rightarrow> error + 'st) \<Rightarrow> 'st \<Rightarrow> error + 'st" where
  "for_loop [] body st = Inr st"
| "for_loop (a # as) body st =
     (case body a st of Inl e \<Rightarrow> Inl e | Inr st' \<Rightarrow> for_loop as body st')"

text \<open>The first pair of loops of \<^verbatim>\<open>_divide\<close> (``loop through all squares'').\<close>

definition square_phase ::
  "(int \<Rightarrow> real) \<Rightarrow> (nat \<Rightarrow> real) \<Rightarrow> int \<Rightarrow> int \<Rightarrow> gen_state \<Rightarrow> error + gen_state" where
  "square_phase amp rng square_len half st =
     for_loop (py_range half (length_t (fst st)) square_len)
       (\<lambda>y st. for_loop (py_range half (width (fst st)) square_len)
          (\<lambda>x (terrain, s). update_square amp rng terrain x y square_len s) st) st"

text \<open>The second pair of loops of \<^verbatim>\<open>_divide\<close> (``loop through all diamonds'').\<close>

definition diamond_phase ::
  "(int \<Rightarrow> real) \<Rightarrow> (nat \<Rightarrow> real) \<Rightarrow> int \<Rightarrow> int \<Rightarrow> gen_state \<Rightarrow> error + gen_state" where
  "diamond_phase amp rng square_len half st =
     for_loop (py_range 0 (length_t (fst st)) half)
       (\<lambda>y st. for_loop (py_range ((y + half) mod square_len) (width (fst st)) square_len)
          (\<lambda>x (terrain, s). update_diamond amp rng terrain x y square_len s) st) st"

text \<open>\<^verbatim>\<open>_divide\<close>: both phases, then the recursive call on squares of half the size,
  until \<open>half < 1\<close>.\<close>

function divide ::
  "(int \<Rightarrow> real) \<Rightarrow> (nat \<Rightarrow> real) \<Rightarrow> int terrain \<Rightarrow> int \<Rightarrow> nat \<Rightarrow> error + gen_state" where
  "divide amp rng terrain square_len s =
     (let half = square_len div 2 in
      if half < 1 then Inr (terrain, s)
      else
        (case square_phase amp rng square_len half (terrain, s) of Inl e \<Rightarrow> Inl e | Inr st1 \<Rightarrow>
        (case diamond_phase amp rng square_len half st1 of Inl e \<Rightarrow> Inl e | Inr (terrain2, s2) \<Rightarrow>
         divide amp rng terrain2 half s2)))"
  by pat_completeness auto
termination
  by (relation "measure (\<lambda>(amp, rng, terrain, square_len, s). nat square_len)") auto

declare divide.simps [simp del]

text \<open>
  \<open>divide\<close> once more, returning in addition the \<open>square_len\<close> of every invocation of
  \<^verbatim>\<open>_divide\<close> it makes, outermost first. Lemma \<open>divide_trace_result\<close> below shows that its
  result is that of \<open>divide\<close>.
\<close>

function divide_trace ::
  "(int \<Rightarrow> real) \<Rightarrow> (nat \<Rightarrow> real) \<Rightarrow> int terrain \<Rightarrow> int \<Rightarrow> nat \<Rightarrow> int list \<times> (error + gen_state)" where
  "divide_trace amp rng terrain square_len s =
     (let half = square_len div 2 in
      if half < 1 then ([square_len], Inr (terrain, s))
      else
        (case square_phase amp rng square_len half (terrain, s) of Inl e \<Rightarrow> ([square_len], Inl e) | Inr st1 \<Rightarrow>
        (case diamond_phase amp rng square_len half st1 of Inl e \<Rightarrow> ([square_len], Inl e) | Inr (terrain2, s2) \<Rightarrow>
         (square_len # fst (divide_trace amp rng terrain2 half s2),
          snd (divide_trace amp rng terrain2 half s2)))))"
  by pat_completeness auto
termination
  by (relation "measure (\<lambda>(amp, rng, terrain, square_len, s). nat square_len)") auto

declare divide_trace.simps [simp del]

text \<open>
  \<^verbatim>\<open>_divide\<close> on a terrain whose side length is a float, as \<^verbatim>\<open>2 ** side_exp + 1\<close> is
  for a negative \<open>side_exp\<close>: \<^verbatim>\<open>square_len / 2\<close> is then a true division, and the
  loops are not entered with \<open>half < 1\<close>. (With \<open>half \<ge> 1\<close>, \<^verbatim>\<open>range\<close> would refuse the
  float.)
\<close>

definition divide_float :: "real terrain \<Rightarrow> real \<Rightarrow> nat \<Rightarrow> error + (real terrain \<times> nat)" where
  "divide_float terrain square_len s =
     (let half = square_len / 2 in
      if half < 1 then Inr (terrain, s) else Inl TypeError)"

text \<open>
  \<^verbatim>\<open>2 ** side_exp + 1\<close> for a negative \<open>side_exp\<close>, where \<^verbatim>\<open>2 ** side_exp\<close> is a float
  (a double): the value of the double that results. \<open>2 ^ side_exp\<close> is computed exactly (it
  is 0.0 below the smallest subnormal), and adding 1 is exact down to \<open>side_exp = -52\<close>; from
  \<open>-53\<close> on the sum rounds to 1.0. The later \<^verbatim>\<open>side_len - 1\<close>, \<^verbatim>\<open>terrain.length - 1\<close> and
  \<^verbatim>\<open>square_len / 2\<close> are exact on these values.
\<close>

definition float_side_len :: "int \<Rightarrow> real" where
  "float_side_len side_exp = (if - 52 \<le> side_exp then 1 / 2 ^ nat (- side_exp) + 1 else 1)"

text \<open>
  For a negative exponent \<^verbatim>\<open>2 ** side_exp\<close> is a power of floats, and the exponent is first
  converted to a float: this raises \<open>OverflowError\<close> for an exponent whose magnitude rounds to
  \<open>2 ^ 1024\<close> or more.
\<close>

definition float_pow_overflows :: "int \<Rightarrow> bool" where
  "float_pow_overflows side_exp \<longleftrightarrow> side_exp \<le> - (2 ^ 1024 - 2 ^ 970)"

text \<open>A returned \<^verbatim>\<open>Terrain\<close>, with int or float dimensions.\<close>

datatype pyterrain = IntTerrain "int terrain" | FloatTerrain "real terrain"

text \<open>
  \<^verbatim>\<open>DiamondSquareGenerator.__call__\<close>. \<open>init\<close> gives the heights of the fresh terrain
  by numeric coordinate.
\<close>

definition call ::
  "(int \<Rightarrow> real) \<Rightarrow> (nat \<Rightarrow> real) \<Rightarrow> (real \<times> real \<Rightarrow> real) \<Rightarrow> int \<Rightarrow> nat \<Rightarrow> error + (pyterrain \<times> nat)" where
  "call amp rng init side_exp s =
     (if 0 \<le> side_exp then
        (let side_len = 2 ^ nat side_exp + 1 in
         (case Terrain_create (\<lambda>(x, y). init (real_of_int x, real_of_int y)) side_len side_len of
            Inl e \<Rightarrow> Inl e | Inr ter \<Rightarrow>
         (case initialize_corners ter (1 / 2) of Inl e \<Rightarrow> Inl e | Inr ter' \<Rightarrow>
         (case divide amp rng ter' (side_len - 1) s of Inl e \<Rightarrow> Inl e
          | Inr (terrain, s') \<Rightarrow> Inr (IntTerrain terrain, s')))))
      else if float_pow_overflows side_exp then Inl OverflowError
      else
        (let side_len = float_side_len side_exp in
         (case Terrain_create init side_len side_len of Inl e \<Rightarrow> Inl e | Inr ter \<Rightarrow>
         (case initialize_corners ter (1 / 2) of Inl e \<Rightarrow> Inl e | Inr ter' \<Rightarrow>
         (case divide_float ter' (side_len - 1) s of Inl e \<Rightarrow> Inl e
          | Inr (terrain, s') \<Rightarrow> Inr (FloatTerrain terrain, s'))))))"

text \<open>
  \<open>call\<close> once more, returning in addition the \<open>square_len\<close> of every invocation of
  \<^verbatim>\<open>_divide\<close> that the call makes, outermost first (as numbers, since a \<open>square_len\<close> may
  be a float): none if an exception precedes \<^verbatim>\<open>_divide\<close>, otherwise those of
  \<open>divide_trace\<close>. Lemma \<open>call_trace_result\<close> below shows that its result is that of \<open>call\<close>.
\<close>

definition call_trace ::
  "(int \<Rightarrow> real) \<Rightarrow> (nat \<Rightarrow> real) \<Rightarrow> (real \<times> real \<Rightarrow> real) \<Rightarrow> int \<Rightarrow> nat \<Rightarrow>
     real list \<times> (error + (pyterrain \<times> nat))" where
  "call_trace amp rng init side_exp s =
     (if 0 \<le> side_exp then
        (let side_len = 2 ^ nat side_exp + 1 in
         (case Terrain_create (\<lambda>(x, y). init (real_of_int x, real_of_int y)) side_len side_len of
            Inl e \<Rightarrow> ([], Inl e) | Inr ter \<Rightarrow>
         (case initialize_corners ter (1 / 2) of Inl e \<Rightarrow> ([], Inl e) | Inr ter' \<Rightarrow>
           (map real_of_int (fst (divide_trace amp rng ter' (side_len - 1) s)),
            (case snd (divide_trace amp rng ter' (side_len - 1) s) of Inl e \<Rightarrow> Inl e
             | Inr (terrain, s') \<Rightarrow> Inr (IntTerrain terrain, s'))))))
      else if float_pow_overflows side_exp then ([], Inl OverflowError)
      else
        (let side_len = float_side_len side_exp in
         (case Terrain_create init side_len side_len of Inl e \<Rightarrow> ([], Inl e) | Inr ter \<Rightarrow>
         (case initialize_corners ter (1 / 2) of Inl e \<Rightarrow> ([], Inl e) | Inr ter' \<Rightarrow>
           ([side_len - 1],
            (case divide_float ter' (side_len - 1) s of Inl e \<Rightarrow> Inl e
             | Inr (terrain, s') \<Rightarrow> Inr (FloatTerrain terrain, s')))))))"

section \<open>The gradient vectors of the Perlin generator\<close>

text \<open>
  \<^verbatim>\<open>x_val = random.random() * vec_magnitude\<close> and
  \<^verbatim>\<open>y_val = math.sqrt(vec_magnitude**2 - x_val**2)\<close>; \<^verbatim>\<open>math.sqrt\<close> raises
  \<open>ValueError\<close> on a negative argument.
\<close>

definition gradient_vector :: "(nat \<Rightarrow> real) \<Rightarrow> real \<Rightarrow> nat \<Rightarrow> error + ((real \<times> real) \<times> nat)" where
  "gradient_vector rng vec_magnitude s =
     (let x_val = rng s * vec_magnitude in
      if vec_magnitude\<^sup>2 - x_val\<^sup>2 < 0 then Inl ValueError
      else Inr ((x_val, sqrt (vec_magnitude\<^sup>2 - x_val\<^sup>2)), s + 1))"

text \<open>\<^verbatim>\<open>self._grad_vecs[y][x] = v\<close> on a list of rows, for indices that come from
  \<^verbatim>\<open>range\<close> and so are not negative.\<close>

definition set_grad_vec ::
  "(real \<times> real) list list \<Rightarrow> int \<Rightarrow> int \<Rightarrow> real \<times> real \<Rightarrow> error + (real \<times> real) list list" where
  "set_grad_vec grad_vecs y x v =
     (if 0 \<le> y \<and> y < int (length grad_vecs) \<and> 0 \<le> x \<and> x < int (length (grad_vecs ! nat y))
      then Inr (grad_vecs[nat y := (grad_vecs ! nat y)[nat x := v]])
      else Inl IndexError)"

text \<open>
  \<^verbatim>\<open>PerlinGenerator._init_gradients\<close>, with the fields \<^verbatim>\<open>_width_in_squares\<close> and
  \<^verbatim>\<open>_length_in_squares\<close> of \<^verbatim>\<open>self\<close> as arguments; the result is the new value of
  \<^verbatim>\<open>self._grad_vecs\<close>.
\<close>

definition init_gradients ::
  "(nat \<Rightarrow> real) \<Rightarrow> int \<Rightarrow> int \<Rightarrow> real \<Rightarrow> nat \<Rightarrow> error + ((real \<times> real) list list \<times> nat)" where
  "init_gradients rng width_in_squares length_in_squares vec_magnitude s =
     for_loop (py_range 0 width_in_squares 1)
       (\<lambda>x. for_loop (py_range 0 length_in_squares 1)
          (\<lambda>y (grad_vecs, s).
             (case gradient_vector rng vec_magnitude s of Inl e \<Rightarrow> Inl e | Inr (v, s') \<Rightarrow>
             (case set_grad_vec grad_vecs y x v of Inl e \<Rightarrow> Inl e
              | Inr grad_vecs' \<Rightarrow> Inr (grad_vecs', s')))))
       (replicate (nat length_in_squares) (replicate (nat width_in_squares) (0, 0)), s)"

section \<open>Notions used in the statements\<close>

text \<open>The clamping policy in the spec's words: above 1 gives 1, below 0 gives 0, anything
  else is kept.\<close>

definition clamp_height :: "real \<Rightarrow> real" where
  "clamp_height v = (if v > 1 then 1 else if v < 0 then 0 else v)"


text \<open>A coordinate pair inside the grid of a terrain.\<close>

definition in_grid :: "int terrain \<Rightarrow> int \<times> int \<Rightarrow> bool" where
  "in_grid terrain c \<longleftrightarrow> 0 \<le> fst c \<and> fst c < width terrain \<and> 0 \<le> snd c \<and> snd c < length_t terrain"

text \<open>A cell on the border of the grid, and the four cells at distance \<open>half\<close> to the left,
  above, to the right and below.\<close>

definition on_edge :: "int terrain \<Rightarrow> int \<times> int \<Rightarrow> bool" where
  "on_edge terrain c \<longleftrightarrow>
     fst c = 0 \<or> snd c = 0 \<or> fst c = width terrain - 1 \<or> snd c = length_t terrain - 1"

definition orthogonal_neighbours :: "int \<Rightarrow> int \<Rightarrow> int \<Rightarrow> (int \<times> int) list" where
  "orthogonal_neighbours x y half = [(x - half, y), (x, y - half), (x + half, y), (x, y + half)]"

text \<open>
  The cells \<open>(x, y)\<close> that the diamond loops of \<^verbatim>\<open>_divide\<close> visit, for a terrain and a
  \<open>square_len\<close>: \<open>y\<close> from the outer and \<open>x\<close> from the inner \<^verbatim>\<open>range\<close>.
\<close>

definition diamond_site :: "int terrain \<Rightarrow> int \<Rightarrow> int \<times> int \<Rightarrow> bool" where
  "diamond_site terrain square_len c \<longleftrightarrow>
     snd c \<in> set (py_range 0 (length_t terrain) (square_len div 2)) \<and>
     fst c \<in> set (py_range ((snd c + square_len div 2) mod square_len) (width terrain) square_len)"

subsection \<open>Invariants of the subdivision\<close>

text \<open>
  A property \<open>V\<close> of heights holds on the lattice of step \<open>h\<close>: at every cell
  \<open>(h * a, h * b)\<close> with \<open>0 \<le> a, b \<le> M\<close>.
\<close>

definition lattice_ok :: "(real \<Rightarrow> bool) \<Rightarrow> int terrain \<Rightarrow> int \<Rightarrow> int \<Rightarrow> bool" where
  "lattice_ok V t h M \<longleftrightarrow>
     (\<forall>a b. 0 \<le> a \<and> a \<le> M \<and> 0 \<le> b \<and> b \<le> M \<longrightarrow> V (heights t (h * a, h * b)))"

text \<open>The same for the cells \<open>(h * a, h * b)\<close> with \<open>a + b\<close> even: what the diamond phase
  reads.\<close>

definition parity_ok :: "(real \<Rightarrow> bool) \<Rightarrow> int terrain \<Rightarrow> int \<Rightarrow> int \<Rightarrow> bool" where
  "parity_ok V t h M \<longleftrightarrow>
     (\<forall>a b. 0 \<le> a \<and> a \<le> M \<and> 0 \<le> b \<and> b \<le> M \<and> even (a + b) \<longrightarrow> V (heights t (h * a, h * b)))"

text \<open>
  From one state of the generation to a later one: the dimensions stay, a height that
  satisfies \<open>V\<close> is only replaced by one that does, and the cells of \<open>K\<close> are not written.
\<close>

definition grows :: "(real \<Rightarrow> bool) \<Rightarrow> (int \<times> int) set \<Rightarrow> gen_state \<Rightarrow> gen_state \<Rightarrow> bool" where
  "grows V K st st' \<longleftrightarrow>
     width (fst st') = width (fst st) \<and> length_t (fst st') = length_t (fst st) \<and>
     (\<forall>c. V (heights (fst st) c) \<longrightarrow> V (heights (fst st') c)) \<and>
     (\<forall>c\<in>K. heights (fst st') c = heights (fst st) c)"

text \<open>\<open>V\<close> is kept by an update: the clamped mean of heights that satisfy \<open>V\<close>, plus any
  offset the amplitude function allows, satisfies \<open>V\<close>.\<close>

definition closed_under :: "(real \<Rightarrow> bool) \<Rightarrow> (int \<Rightarrow> real) \<Rightarrow> bool" where
  "closed_under V amp \<longleftrightarrow>
     (\<forall>vs r f. vs \<noteq> [] \<and> (\<forall>v\<in>set vs. V v) \<longrightarrow>
        V (clamp_height (sum_list vs / real (length vs) + (r - 1 / 2) * amp f)))"

text \<open>
  For the gradient vectors: from one state of the loops of \<open>init_gradients\<close> to a later
  one, the list of rows keeps its shape, and a vector of magnitude \<open>m\<close> is only replaced by
  one of magnitude \<open>m\<close>.
\<close>

definition grads_grow ::
  "real \<Rightarrow> (real \<times> real) list list \<times> nat \<Rightarrow> (real \<times> real) list list \<times> nat \<Rightarrow> bool" where
  "grads_grow m st st' \<longleftrightarrow>
     length (fst st') = length (fst st) \<and>
     (\<forall>y < length (fst st). length (fst st' ! y) = length (fst st ! y) \<and>
        (\<forall>x < length (fst st ! y).
           (fst (fst st ! y ! x))\<^sup>2 + (snd (fst st ! y ! x))\<^sup>2 = m\<^sup>2 \<longrightarrow>
           (fst (fst st' ! y ! x))\<^sup>2 + (snd (fst st' ! y ! x))\<^sup>2 = m\<^sup>2))"

section \<open>Single updates\<close>

lemma Terrain_set_Inr:
  "Terrain_set t c v = Inr t' \<Longrightarrow>
     t' = t\<lparr>heights := (heights t)(c := v)\<rparr> \<and> 0 \<le> fst c \<and> fst c < width t \<and> 0 \<le> snd c \<and> snd c < length_t t"
  by (simp add: Terrain_set_def split: if_splits)

lemma store_height_clamp:
  "store_height t x y v = Terrain_set t (x, y) (clamp_height v)"
  by (simp add: store_height_def clamp_height_def)

lemma Terrain_get_in_grid:
  "in_grid t c \<Longrightarrow> Terrain_get t c = Inr (heights t c)"
  by (simp add: Terrain_get_def in_grid_def)

lemma Terrain_get_Inr:
  "Terrain_get t c = Inr v \<Longrightarrow> in_grid t c \<and> v = heights t c"
  by (simp add: Terrain_get_def in_grid_def split: if_splits)

lemma Terrain_set_in_grid:
  "in_grid t c \<Longrightarrow> Terrain_set t c v = Inr (t\<lparr>heights := (heights t)(c := v)\<rparr>)"
  by (simp add: Terrain_set_def in_grid_def)

lemma update_square_value:
  assumes "in_grid t (x - sl div 2, y - sl div 2)" "in_grid t (x - sl div 2, y + sl div 2)"
    "in_grid t (x + sl div 2, y - sl div 2)" "in_grid t (x + sl div 2, y + sl div 2)"
    "in_grid t (x, y)" "sl \<noteq> 0"
  shows "update_square amp rng t x y sl s =
    Inr (t\<lparr>heights := (heights t)((x, y) := clamp_height
          (sum_list [heights t (x - sl div 2, y - sl div 2), heights t (x - sl div 2, y + sl div 2),
             heights t (x + sl div 2, y - sl div 2), heights t (x + sl div 2, y + sl div 2)] / 4
           + (rng s - 1 / 2) * amp (length_t t div sl)))\<rparr>, s + 1)"
  using assms
  by (simp add: update_square_def Let_def Terrain_get_in_grid noise_offset_def
      store_height_clamp Terrain_set_in_grid)

lemma update_square_Inr:
  assumes "update_square amp rng t x y sl s = Inr (t', s')"
  shows "t' = t\<lparr>heights := (heights t)((x, y) := clamp_height
          (sum_list [heights t (x - sl div 2, y - sl div 2), heights t (x - sl div 2, y + sl div 2),
             heights t (x + sl div 2, y - sl div 2), heights t (x + sl div 2, y + sl div 2)] / 4
           + (rng s - 1 / 2) * amp (length_t t div sl)))\<rparr> \<and> s' = s + 1"
  using assms
  by (auto simp: update_square_def Let_def noise_offset_def store_height_clamp
      split: sum.splits if_splits dest!: Terrain_get_Inr Terrain_set_Inr)

lemma update_diamond_Inr:
  assumes "update_diamond amp rng t x y dl s = Inr (t', s')"
  shows "\<exists>ns. diamond_neighbours t x y (dl div 2) = Inr ns \<and> ns \<noteq> [] \<and>
     t' = t\<lparr>heights := (heights t)((x, y) := clamp_height
          (sum_list ns / real (length ns) + (rng s - 1 / 2) * amp (length_t t div dl)))\<rparr> \<and> s' = s + 1"
  using assms
  by (auto simp: update_diamond_def Let_def noise_offset_def store_height_clamp
      split: sum.splits if_splits dest!: Terrain_set_Inr)

lemma update_diamond_value:
  assumes "diamond_neighbours t x y (dl div 2) = Inr ns" "ns \<noteq> []" "in_grid t (x, y)" "dl \<noteq> 0"
  shows "update_diamond amp rng t x y dl s =
     Inr (t\<lparr>heights := (heights t)((x, y) := clamp_height
          (sum_list ns / real (length ns) + (rng s - 1 / 2) * amp (length_t t div dl)))\<rparr>, s + 1)"
  using assms
  by (simp add: update_diamond_def Let_def noise_offset_def store_height_clamp Terrain_set_in_grid)

section \<open>Ranges and loops\<close>

lemma py_range_mem:
  "0 < step \<Longrightarrow> x \<in> set (py_range start stop step) \<longleftrightarrow> start \<le> x \<and> x < stop \<and> step dvd (x - start)"
proof (induction start stop step rule: py_range.induct)
  case (1 start stop step)
  show ?case
  proof (cases "start < stop")
    case False
    with "1.prems" show ?thesis by (subst py_range.simps) auto
  next
    case True
    have unfold: "py_range start stop step = start # py_range (start + step) stop step"
      using True "1.prems" by (subst py_range.simps) simp
    have IH: "x \<in> set (py_range (start + step) stop step) \<longleftrightarrow>
        start + step \<le> x \<and> x < stop \<and> step dvd (x - (start + step))"
      using "1.IH"(1) True "1.prems" by simp
    have dvd_shift: "step dvd (x - (start + step)) \<longleftrightarrow> step dvd (x - start)"
    proof -
      have "x - start = (x - (start + step)) + step" by simp
      then show ?thesis by (metis dvd_add_triv_right_iff)
    qed
    have far: "start + step \<le> x" if "start \<le> x" "x \<noteq> start" "step dvd (x - start)"
    proof -
      have "0 < x - start" using that by simp
      with that(3) have "step \<le> x - start" by (simp add: zdvd_imp_le)
      then show ?thesis by simp
    qed
    have "x \<in> set (py_range start stop step) \<longleftrightarrow> x = start \<or> x \<in> set (py_range (start + step) stop step)"
      by (subst unfold) simp
    also have "\<dots> \<longleftrightarrow> x = start \<or> (start + step \<le> x \<and> x < stop \<and> step dvd (x - start))"
      by (simp only: IH dvd_shift)
    also have "\<dots> \<longleftrightarrow> start \<le> x \<and> x < stop \<and> step dvd (x - start)"
    proof (cases "x = start")
      case True
      then show ?thesis using \<open>start < stop\<close> by simp
    next
      case False
      then show ?thesis using far "1.prems" by fastforce
    qed
    finally show ?thesis .
  qed
qed

lemma for_loop_extends:
  assumes refl: "\<And>st. R st st"
    and trans: "\<And>a b c. R a b \<Longrightarrow> R b c \<Longrightarrow> R a c"
    and stable: "\<And>a st st'. Q a st \<Longrightarrow> R st st' \<Longrightarrow> Q a st'"
    and step: "\<And>a st. a \<in> set xs \<Longrightarrow> R st0 st \<Longrightarrow> \<exists>st'. body a st = Inr st' \<and> R st st' \<and> Q a st'"
    and start: "R st0 st"
  shows "\<exists>st'. for_loop xs body st = Inr st' \<and> R st st' \<and> (\<forall>a\<in>set xs. Q a st')"
  using step start
proof (induction xs arbitrary: st)
  case Nil
  then show ?case by (simp add: refl)
next
  case (Cons x xs)
  from Cons.prems(1)[of x st] Cons.prems(2)
  obtain st1 where st1: "body x st = Inr st1" "R st st1" "Q x st1" by auto
  have "R st0 st1" using Cons.prems(2) st1(2) by (rule trans)
  with Cons.IH[of st1] Cons.prems(1)
  obtain st' where st': "for_loop xs body st1 = Inr st'" "R st1 st'" "\<forall>a\<in>set xs. Q a st'"
    by auto
  have "Q x st'" using st1(3) st'(2) by (rule stable)
  moreover have "R st st'" using st1(2) st'(2) by (rule trans)
  ultimately show ?case using st1(1) st' by simp
qed

lemma py_range_index:
  assumes "0 < h" "0 < c"
  shows "x \<in> set (py_range (h * a) (h * M + 1) (h * c)) \<longleftrightarrow>
     (\<exists>i. x = h * i \<and> a \<le> i \<and> i \<le> M \<and> c dvd (i - a))"
proof -
  have pos: "0 < h * c" using assms by simp
  show ?thesis
  proof
    assume "x \<in> set (py_range (h * a) (h * M + 1) (h * c))"
    then have m: "h * a \<le> x" "x < h * M + 1" "h * c dvd (x - h * a)"
      by (simp_all add: py_range_mem[OF pos])
    from m(3) obtain q where q: "x - h * a = h * c * q" by (auto simp: dvd_def)
    then have x: "x = h * (a + c * q)" by (simp add: algebra_simps)
    have "h * a \<le> h * (a + c * q)" using m(1) x by simp
    then have 1: "a \<le> a + c * q" using assms(1) by (simp only: mult_le_cancel_left_pos)
    have "h * (a + c * q) \<le> h * M" using m(2) x by simp
    then have 2: "a + c * q \<le> M" using assms(1) by (simp only: mult_le_cancel_left_pos)
    have 3: "c dvd (a + c * q - a)" by simp
    show "\<exists>i. x = h * i \<and> a \<le> i \<and> i \<le> M \<and> c dvd (i - a)"
      using x 1 2 3 by blast
  next
    assume "\<exists>i. x = h * i \<and> a \<le> i \<and> i \<le> M \<and> c dvd (i - a)"
    then obtain i where i: "x = h * i" "a \<le> i" "i \<le> M" "c dvd (i - a)" by blast
    have 1: "h * a \<le> x" using i(1,2) assms(1) by (simp add: mult_le_cancel_left_pos)
    have "h * i \<le> h * M" using i(3) assms(1) by (simp add: mult_le_cancel_left_pos)
    then have 2: "x < h * M + 1" using i(1) by simp
    have "h * c dvd h * (i - a)" using i(4) by (rule mult_dvd_mono[OF dvd_refl])
    then have 3: "h * c dvd (x - h * a)" using i(1) by (simp add: algebra_simps)
    show "x \<in> set (py_range (h * a) (h * M + 1) (h * c))"
      using 1 2 3 by (simp add: py_range_mem[OF pos])
  qed
qed

lemma square_range:
  assumes "0 < h"
  shows "x \<in> set (py_range h (h * M + 1) (2 * h)) \<longleftrightarrow> (\<exists>i. x = h * i \<and> 0 \<le> i \<and> i \<le> M \<and> odd i)"
proof -
  have "x \<in> set (py_range (h * 1) (h * M + 1) (h * 2)) \<longleftrightarrow>
     (\<exists>i. x = h * i \<and> 1 \<le> i \<and> i \<le> M \<and> 2 dvd (i - 1))"
    using assms by (rule py_range_index) simp
  moreover have "(1 \<le> i \<and> i \<le> M \<and> 2 dvd (i - 1)) \<longleftrightarrow> (0 \<le> i \<and> i \<le> M \<and> odd i)" for i :: int
    by presburger
  ultimately show ?thesis by (simp add: mult.commute)
qed

lemma row_range:
  assumes "0 < h"
  shows "y \<in> set (py_range 0 (h * M + 1) h) \<longleftrightarrow> (\<exists>j. y = h * j \<and> 0 \<le> j \<and> j \<le> M)"
proof -
  have "y \<in> set (py_range (h * 0) (h * M + 1) (h * 1)) \<longleftrightarrow>
     (\<exists>i. y = h * i \<and> 0 \<le> i \<and> i \<le> M \<and> 1 dvd (i - 0))"
    using assms by (rule py_range_index) simp
  then show ?thesis by simp
qed

lemma diamond_range:
  assumes "0 < h"
  shows "x \<in> set (py_range ((h * j + h) mod (2 * h)) (h * M + 1) (2 * h)) \<longleftrightarrow>
     (\<exists>i. x = h * i \<and> 0 \<le> i \<and> i \<le> M \<and> odd (i + j))"
proof -
  have "(h * j + h) mod (2 * h) = (h * (j + 1)) mod (h * 2)" by (simp add: algebra_simps)
  also have "\<dots> = h * ((j + 1) mod 2)" by (rule mult_mod_right[symmetric])
  finally have start: "(h * j + h) mod (2 * h) = h * ((j + 1) mod 2)" .
  have "x \<in> set (py_range (h * ((j + 1) mod 2)) (h * M + 1) (h * 2)) \<longleftrightarrow>
     (\<exists>i. x = h * i \<and> (j + 1) mod 2 \<le> i \<and> i \<le> M \<and> 2 dvd (i - (j + 1) mod 2))"
    using assms by (rule py_range_index) simp
  moreover have "((j + 1) mod 2 \<le> i \<and> i \<le> M \<and> 2 dvd (i - (j + 1) mod 2)) \<longleftrightarrow>
      (0 \<le> i \<and> i \<le> M \<and> odd (i + j))" for i :: int
    by presburger
  ultimately show ?thesis unfolding start by (simp add: mult.commute)
qed

section \<open>The square phase\<close>

lemma in_grid_index:
  assumes "0 < h" "width t = h * M + 1" "length_t t = h * M + 1"
  shows "in_grid t (h * a, h * b) \<longleftrightarrow> 0 \<le> a \<and> a \<le> M \<and> 0 \<le> b \<and> b \<le> M"
proof -
  have lo: "0 \<le> h * c \<longleftrightarrow> 0 \<le> c" for c
    using assms(1) by (simp add: zero_le_mult_iff)
  have hi: "h * c < h * M + 1 \<longleftrightarrow> c \<le> M" for c
  proof -
    have "h * c < h * M + 1 \<longleftrightarrow> h * c \<le> h * M" by auto
    also have "\<dots> \<longleftrightarrow> c \<le> M" using assms(1) by (simp only: mult_le_cancel_left_pos)
    finally show ?thesis .
  qed
  have hi': "h * c \<le> h * M \<longleftrightarrow> c \<le> M" for c
    using assms(1) by (simp only: mult_le_cancel_left_pos)
  show ?thesis by (simp add: in_grid_def assms(2,3) lo hi')
qed

lemma grows_refl: "grows V K st st"
  by (simp add: grows_def)

lemma grows_trans: "grows V K st1 st2 \<Longrightarrow> grows V K st2 st3 \<Longrightarrow> grows V K st1 st3"
  by (simp add: grows_def)

lemma grows_update:
  "V v \<Longrightarrow> c \<notin> K \<Longrightarrow> grows V K (t, s) (t\<lparr>heights := (heights t)(c := v)\<rparr>, s')"
  by (auto simp: grows_def)

lemma grows_lattice_ok:
  "grows V K st st' \<Longrightarrow> lattice_ok V (fst st) h M \<Longrightarrow> lattice_ok V (fst st') h M"
  by (simp add: grows_def lattice_ok_def)

lemma grows_V: "grows V K st st' \<Longrightarrow> V (heights (fst st) c) \<Longrightarrow> V (heights (fst st') c)"
  unfolding grows_def by blast

lemma lattice_okD:
  "lattice_ok V t h M \<Longrightarrow> 0 \<le> a \<Longrightarrow> a \<le> M \<Longrightarrow> 0 \<le> b \<Longrightarrow> b \<le> M \<Longrightarrow> V (heights t (h * a, h * b))"
  by (simp add: lattice_ok_def)

lemma closed_underD:
  "closed_under V amp \<Longrightarrow> vs \<noteq> [] \<Longrightarrow> (\<And>v. v \<in> set vs \<Longrightarrow> V v) \<Longrightarrow>
     V (clamp_height (sum_list vs / real (length vs) + (r - 1 / 2) * amp f))"
  unfolding closed_under_def by blast

lemma odd_site_not_coarse:
  assumes "0 < (h::int)" "odd i \<or> odd j"
  shows "(h * i, h * j) \<noteq> (2 * h * a, 2 * h * b)"
proof
  assume eq: "(h * i, h * j) = (2 * h * a, 2 * h * b)"
  then have "h * i = h * (2 * a)" "h * j = h * (2 * b)" by simp_all
  then have "i = 2 * a" "j = 2 * b" using assms(1) by simp_all
  with assms(2) show False by simp
qed

lemma square_step:
  assumes h: "0 < h" and dims: "width t = h * (2 * m) + 1" "length_t t = h * (2 * m) + 1"
    and cl: "closed_under V amp" and lat: "lattice_ok V t (2 * h) m"
    and K: "\<And>c. c \<in> K \<Longrightarrow> \<exists>a b. c = (2 * h * a, 2 * h * b)"
    and i: "0 \<le> i" "i \<le> 2 * m" "odd i" and j: "0 \<le> j" "j \<le> 2 * m" "odd j"
  shows "\<exists>st'. update_square amp rng t (h * i) (h * j) (2 * h) s = Inr st' \<and>
     grows V K (t, s) st' \<and> V (heights (fst st') (h * i, h * j))"
proof -
  from i obtain p where p: "i = 2 * p + 1" "0 \<le> p" "p < m" by (elim oddE) auto
  from j obtain q where q: "j = 2 * q + 1" "0 \<le> q" "q < m" by (elim oddE) auto
  have half: "2 * h div 2 = h" by simp
  have xm: "h * i - h = 2 * h * p" and xp: "h * i + h = 2 * h * (p + 1)"
    and ym: "h * j - h = 2 * h * q" and yp: "h * j + h = 2 * h * (q + 1)"
    by (simp_all add: p q algebra_simps)
  have dims2: "width t = 2 * h * m + 1" "length_t t = 2 * h * m + 1"
    using dims by simp_all
  have h2: "0 < 2 * h" using h by simp
  have g: "in_grid t (2 * h * a, 2 * h * b) \<longleftrightarrow> 0 \<le> a \<and> a \<le> m \<and> 0 \<le> b \<and> b \<le> m" for a b
    using h2 dims2 by (rule in_grid_index)
  have site: "in_grid t (h * i, h * j)"
    using i j by (simp add: in_grid_index[OF h dims])
  let ?vs = "[heights t (2 * h * p, 2 * h * q), heights t (2 * h * p, 2 * h * (q + 1)),
     heights t (2 * h * (p + 1), 2 * h * q), heights t (2 * h * (p + 1), 2 * h * (q + 1))]"
  let ?v = "clamp_height (sum_list ?vs / real (length ?vs)
     + (rng s - 1 / 2) * amp (length_t t div (2 * h)))"
  have V: "V ?v"
  proof (rule closed_underD[OF cl])
    show "?vs \<noteq> []" by simp
    fix v assume "v \<in> set ?vs"
    then show "V v" using lattice_okD[OF lat] p q by auto
  qed
  have "update_square amp rng t (h * i) (h * j) (2 * h) s =
    Inr (t\<lparr>heights := (heights t)((h * i, h * j) := clamp_height
          (sum_list [heights t (h * i - 2 * h div 2, h * j - 2 * h div 2),
             heights t (h * i - 2 * h div 2, h * j + 2 * h div 2),
             heights t (h * i + 2 * h div 2, h * j - 2 * h div 2),
             heights t (h * i + 2 * h div 2, h * j + 2 * h div 2)] / 4
           + (rng s - 1 / 2) * amp (length_t t div (2 * h))))\<rparr>, s + 1)"
  proof (rule update_square_value)
    show "in_grid t (h * i - 2 * h div 2, h * j - 2 * h div 2)"
      unfolding half xm ym using p q by (simp add: g)
    show "in_grid t (h * i - 2 * h div 2, h * j + 2 * h div 2)"
      unfolding half xm yp using p q by (simp add: g)
    show "in_grid t (h * i + 2 * h div 2, h * j - 2 * h div 2)"
      unfolding half xp ym using p q by (simp add: g)
    show "in_grid t (h * i + 2 * h div 2, h * j + 2 * h div 2)"
      unfolding half xp yp using p q by (simp add: g)
    show "in_grid t (h * i, h * j)" by (rule site)
    show "2 * h \<noteq> 0" using h by simp
  qed
  then have "update_square amp rng t (h * i) (h * j) (2 * h) s =
      Inr (t\<lparr>heights := (heights t)((h * i, h * j) := ?v)\<rparr>, s + 1)"
    unfolding half xm xp ym yp by simp
  moreover have "(h * i, h * j) \<notin> K"
    using K odd_site_not_coarse[OF h, of i j] i(3) by blast
  ultimately show ?thesis using V grows_update[of V ?v "(h * i, h * j)" K t s "s + 1"] by simp
qed

lemma grows_dims:
  "grows V K st st' \<Longrightarrow> width (fst st') = width (fst st) \<and> length_t (fst st') = length_t (fst st)"
  by (simp add: grows_def)

lemma square_row:
  assumes h: "0 < h" and dims: "width (fst st) = h * (2 * m) + 1" "length_t (fst st) = h * (2 * m) + 1"
    and cl: "closed_under V amp" and lat: "lattice_ok V (fst st) (2 * h) m"
    and K: "\<And>c. c \<in> K \<Longrightarrow> \<exists>a b. c = (2 * h * a, 2 * h * b)"
    and j: "0 \<le> j" "j \<le> 2 * m" "odd j"
  shows "\<exists>st'. for_loop (py_range h (width (fst st)) (2 * h))
        (\<lambda>x (terrain, s). update_square amp rng terrain x (h * j) (2 * h) s) st = Inr st' \<and>
      grows V K st st' \<and>
      (\<forall>x\<in>set (py_range h (h * (2 * m) + 1) (2 * h)). V (heights (fst st') (x, h * j)))"
  unfolding dims(1)
proof (rule for_loop_extends[where R = "grows V K" and Q = "\<lambda>x st. V (heights (fst st) (x, h * j))"])
  fix a st1
  assume a: "a \<in> set (py_range h (h * (2 * m) + 1) (2 * h))" and g: "grows V K st st1"
  from a obtain i where i: "a = h * i" "0 \<le> i" "i \<le> 2 * m" "odd i"
    using square_range[OF h] by blast
  obtain t1 s1 where st1: "st1 = (t1, s1)" by (cases st1)
  have d1: "width t1 = h * (2 * m) + 1" "length_t t1 = h * (2 * m) + 1"
    using grows_dims[OF g] dims st1 by simp_all
  have l1: "lattice_ok V t1 (2 * h) m"
    using grows_lattice_ok[OF g lat] st1 by simp
  from square_step[OF h d1 cl l1 K i(2,3,4) j, where rng = rng and s = s1]
  show "\<exists>st'. (case st1 of (terrain, s) \<Rightarrow> update_square amp rng terrain a (h * j) (2 * h) s) = Inr st' \<and>
      grows V K st1 st' \<and> V (heights (fst st') (a, h * j))"
    by (simp add: st1 i(1))
qed (auto intro: grows_refl grows_trans grows_V)

lemma square_phase_ok:
  assumes h: "0 < h" and dims: "width t = h * (2 * m) + 1" "length_t t = h * (2 * m) + 1"
    and cl: "closed_under V amp" and lat: "lattice_ok V t (2 * h) m"
    and K: "\<And>c. c \<in> K \<Longrightarrow> \<exists>a b. c = (2 * h * a, 2 * h * b)"
  shows "\<exists>st'. square_phase amp rng (2 * h) h (t, s) = Inr st' \<and> grows V K (t, s) st' \<and>
     (\<forall>i j. 0 \<le> i \<and> i \<le> 2 * m \<and> odd i \<and> 0 \<le> j \<and> j \<le> 2 * m \<and> odd j \<longrightarrow>
        V (heights (fst st') (h * i, h * j)))"
proof -
  let ?xs = "py_range h (h * (2 * m) + 1) (2 * h)"
  have "\<exists>st'. for_loop ?xs
        (\<lambda>y st. for_loop (py_range h (width (fst st)) (2 * h))
           (\<lambda>x (terrain, s). update_square amp rng terrain x y (2 * h) s) st) (t, s) = Inr st' \<and>
      grows V K (t, s) st' \<and> (\<forall>y\<in>set ?xs. \<forall>x\<in>set ?xs. V (heights (fst st') (x, y)))"
  proof (rule for_loop_extends[where R = "grows V K"
        and Q = "\<lambda>y st. \<forall>x\<in>set ?xs. V (heights (fst st) (x, y))"])
    fix a st1
    assume a: "a \<in> set ?xs" and g: "grows V K (t, s) st1"
    from a obtain j where j: "a = h * j" "0 \<le> j" "j \<le> 2 * m" "odd j"
      using square_range[OF h] by blast
    have d1: "width (fst st1) = h * (2 * m) + 1" "length_t (fst st1) = h * (2 * m) + 1"
      using grows_dims[OF g] dims by simp_all
    have l1: "lattice_ok V (fst st1) (2 * h) m"
      using grows_lattice_ok[OF g] lat by simp
    from square_row[OF h d1 cl l1 K j(2,3,4), where rng = rng]
    show "\<exists>st'. for_loop (py_range h (width (fst st1)) (2 * h))
          (\<lambda>x (terrain, s). update_square amp rng terrain x a (2 * h) s) st1 = Inr st' \<and>
        grows V K st1 st' \<and> (\<forall>x\<in>set ?xs. V (heights (fst st') (x, a)))"
      by (simp add: j(1))
  qed (auto intro: grows_refl grows_trans grows_V)
  then obtain st' where st': "for_loop ?xs
        (\<lambda>y st. for_loop (py_range h (width (fst st)) (2 * h))
           (\<lambda>x (terrain, s). update_square amp rng terrain x y (2 * h) s) st) (t, s) = Inr st'"
      "grows V K (t, s) st'" "\<forall>y\<in>set ?xs. \<forall>x\<in>set ?xs. V (heights (fst st') (x, y))"
    by blast
  have "V (heights (fst st') (h * i, h * j))"
    if "0 \<le> i" "i \<le> 2 * m" "odd i" "0 \<le> j" "j \<le> 2 * m" "odd j" for i j
  proof -
    have "h * i \<in> set ?xs" "h * j \<in> set ?xs"
      using that square_range[OF h] by blast+
    then show ?thesis using st'(3) by blast
  qed
  then show ?thesis
    using st'(1,2) by (auto simp: square_phase_def dims)
qed

section \<open>The diamond phase\<close>

lemma diamond_neighbours_filter:
  assumes "x \<noteq> 0 \<longleftrightarrow> in_grid t (x - h, y)" "y \<noteq> 0 \<longleftrightarrow> in_grid t (x, y - h)"
    "x \<noteq> width t - 1 \<longleftrightarrow> in_grid t (x + h, y)" "y \<noteq> length_t t - 1 \<longleftrightarrow> in_grid t (x, y + h)"
  shows "diamond_neighbours t x y h =
     Inr (map (heights t) (filter (in_grid t) (orthogonal_neighbours x y h)))"
  using assms
  by (simp add: diamond_neighbours_def append_neighbour_def orthogonal_neighbours_def
      Terrain_get_in_grid)

lemma length_filter4:
  "length (filter P [a, b, c, d]) =
     (if P a then 1 else 0) + (if P b then 1 else 0) + (if P c then 1 else 0) + (if P d then 1 else 0)"
  by simp

lemma set_filter4:
  "e \<in> set (filter P [a, b, c, d]) \<Longrightarrow> P e \<and> (e = a \<or> e = b \<or> e = c \<or> e = d)"
  by (auto split: if_splits)

lemma count4:
  assumes "\<not> a \<longrightarrow> b \<and> c \<and> d" "\<not> b \<longrightarrow> a \<and> c \<and> d"
    "\<not> c \<longrightarrow> a \<and> b \<and> d" "\<not> d \<longrightarrow> a \<and> b \<and> c"
  shows "(if a then 1 else 0) + (if b then 1 else 0) + (if c then 1 else 0) + (if d then 1 else 0) =
     (if \<not> a \<or> \<not> b \<or> \<not> c \<or> \<not> d then 3 else (4::nat))"
proof (cases a)
  case True
  note a = this
  show ?thesis
  proof (cases b)
    case True
    note b = this
    show ?thesis
    proof (cases c)
      case True
      then show ?thesis using a b by (cases d) simp_all
    next
      case False
      then show ?thesis using a b assms(3) by simp
    qed
  next
    case False
    then show ?thesis using a assms(2) by simp
  qed
next
  case False
  then show ?thesis using assms(1) by simp
qed

lemma diamond_site_index:
  assumes h: "0 < h" and dims: "width t = h * M + 1" "length_t t = h * M + 1"
    and M: "2 \<le> M" "even M"
    and ij: "0 \<le> i" "i \<le> M" "0 \<le> j" "j \<le> M" "odd (i + j)"
  shows "diamond_neighbours t (h * i) (h * j) h =
     Inr (map (heights t) (filter (in_grid t) (orthogonal_neighbours (h * i) (h * j) h)))"
    and "length (filter (in_grid t) (orthogonal_neighbours (h * i) (h * j) h)) =
     (if on_edge t (h * i, h * j) then 3 else 4)"
    and "set (filter (in_grid t) (orthogonal_neighbours (h * i) (h * j) h)) \<subseteq>
     {(h * a, h * b) | a b. 0 \<le> a \<and> a \<le> M \<and> 0 \<le> b \<and> b \<le> M \<and> even (a + b)}"
proof -
  have xm: "h * i - h = h * (i - 1)" and xp: "h * i + h = h * (i + 1)"
    and ym: "h * j - h = h * (j - 1)" and yp: "h * j + h = h * (j + 1)"
    by (simp_all add: algebra_simps)
  note g = in_grid_index[OF h dims]
  have n1: "in_grid t (h * i - h, h * j) \<longleftrightarrow> i \<noteq> 0"
    unfolding xm g using ij by auto
  have n2: "in_grid t (h * i, h * j - h) \<longleftrightarrow> j \<noteq> 0"
    unfolding ym g using ij by auto
  have n3: "in_grid t (h * i + h, h * j) \<longleftrightarrow> i \<noteq> M"
    unfolding xp g using ij by auto
  have n4: "in_grid t (h * i, h * j + h) \<longleftrightarrow> j \<noteq> M"
    unfolding yp g using ij by auto
  have z: "h * i = 0 \<longleftrightarrow> i = 0" "h * j = 0 \<longleftrightarrow> j = 0"
    "h * i = width t - 1 \<longleftrightarrow> i = M" "h * j = length_t t - 1 \<longleftrightarrow> j = M"
    using h by (simp_all add: dims)
  show "diamond_neighbours t (h * i) (h * j) h =
     Inr (map (heights t) (filter (in_grid t) (orthogonal_neighbours (h * i) (h * j) h)))"
    by (rule diamond_neighbours_filter) (simp_all only: n1 n2 n3 n4 z)
  have edge: "on_edge t (h * i, h * j) \<longleftrightarrow> i = 0 \<or> j = 0 \<or> i = M \<or> j = M"
    using h by (simp add: on_edge_def dims)
  have one: "(i = 0 \<longrightarrow> j \<noteq> 0 \<and> j \<noteq> M \<and> i \<noteq> M) \<and> (j = 0 \<longrightarrow> i \<noteq> 0 \<and> i \<noteq> M \<and> j \<noteq> M)
     \<and> (i = M \<longrightarrow> j \<noteq> 0 \<and> j \<noteq> M) \<and> (j = M \<longrightarrow> i \<noteq> 0 \<and> i \<noteq> M)"
    using M ij by presburger
  show "length (filter (in_grid t) (orthogonal_neighbours (h * i) (h * j) h)) =
     (if on_edge t (h * i, h * j) then 3 else 4)"
  proof -
    have "length (filter (in_grid t) (orthogonal_neighbours (h * i) (h * j) h)) =
        (if i \<noteq> 0 then 1 else 0) + (if j \<noteq> 0 then 1 else 0)
        + (if i \<noteq> M then 1 else 0) + (if j \<noteq> M then 1 else (0::nat))"
      unfolding orthogonal_neighbours_def length_filter4 n1 n2 n3 n4 ..
    also have "\<dots> = (if \<not> i \<noteq> 0 \<or> \<not> j \<noteq> 0 \<or> \<not> i \<noteq> M \<or> \<not> j \<noteq> M then 3 else 4)"
      by (rule count4) (use one in blast)+
    also have "\<dots> = (if on_edge t (h * i, h * j) then 3 else 4)"
      unfolding edge not_not ..
    finally show ?thesis .
  qed
  have p1: "even (i - 1 + j)" "even (i + (j - 1))" "even (i + 1 + j)" "even (i + (j + 1))"
  proof -
    show "even (i - 1 + j)" using ij(5) by presburger
    show "even (i + (j - 1))" using ij(5) by presburger
    show "even (i + 1 + j)" using ij(5) by presburger
    show "even (i + (j + 1))" using ij(5) by presburger
  qed
  show "set (filter (in_grid t) (orthogonal_neighbours (h * i) (h * j) h)) \<subseteq>
     {(h * a, h * b) | a b. 0 \<le> a \<and> a \<le> M \<and> 0 \<le> b \<and> b \<le> M \<and> even (a + b)}"
  proof
    fix c assume "c \<in> set (filter (in_grid t) (orthogonal_neighbours (h * i) (h * j) h))"
    then have "in_grid t c \<and> (c = (h * i - h, h * j) \<or> c = (h * i, h * j - h)
        \<or> c = (h * i + h, h * j) \<or> c = (h * i, h * j + h))"
      unfolding orthogonal_neighbours_def by (rule set_filter4)
    then have c: "in_grid t c" "c = (h * (i - 1), h * j) \<or> c = (h * i, h * (j - 1))
        \<or> c = (h * (i + 1), h * j) \<or> c = (h * i, h * (j + 1))"
      unfolding xm xp ym yp by blast+
    then consider "c = (h * (i - 1), h * j)" | "c = (h * i, h * (j - 1))"
      | "c = (h * (i + 1), h * j)" | "c = (h * i, h * (j + 1))" by blast
    then show "c \<in> {(h * a, h * b) | a b. 0 \<le> a \<and> a \<le> M \<and> 0 \<le> b \<and> b \<le> M \<and> even (a + b)}"
    proof cases
      case 1
      with c(1) have "0 \<le> i - 1 \<and> i - 1 \<le> M \<and> 0 \<le> j \<and> j \<le> M" by (simp only: g)
      with 1 p1(1) show ?thesis by blast
    next
      case 2
      with c(1) have "0 \<le> i \<and> i \<le> M \<and> 0 \<le> j - 1 \<and> j - 1 \<le> M" by (simp only: g)
      with 2 p1(2) show ?thesis by blast
    next
      case 3
      with c(1) have "0 \<le> i + 1 \<and> i + 1 \<le> M \<and> 0 \<le> j \<and> j \<le> M" by (simp only: g)
      with 3 p1(3) show ?thesis by blast
    next
      case 4
      with c(1) have "0 \<le> i \<and> i \<le> M \<and> 0 \<le> j + 1 \<and> j + 1 \<le> M" by (simp only: g)
      with 4 p1(4) show ?thesis by blast
    qed
  qed
qed

lemma parity_okD:
  "parity_ok V t h M \<Longrightarrow> 0 \<le> a \<Longrightarrow> a \<le> M \<Longrightarrow> 0 \<le> b \<Longrightarrow> b \<le> M \<Longrightarrow> even (a + b) \<Longrightarrow>
     V (heights t (h * a, h * b))"
  by (simp add: parity_ok_def)

lemma grows_parity_ok:
  "grows V K st st' \<Longrightarrow> parity_ok V (fst st) h M \<Longrightarrow> parity_ok V (fst st') h M"
  unfolding grows_def parity_ok_def by blast

lemma diamond_step:
  assumes h: "0 < h" and dims: "width t = h * (2 * m) + 1" "length_t t = h * (2 * m) + 1"
    and m: "1 \<le> m"
    and cl: "closed_under V amp" and par: "parity_ok V t h (2 * m)"
    and K: "\<And>c. c \<in> K \<Longrightarrow> \<exists>a b. c = (2 * h * a, 2 * h * b)"
    and ij: "0 \<le> i" "i \<le> 2 * m" "0 \<le> j" "j \<le> 2 * m" "odd (i + j)"
  shows "\<exists>st'. update_diamond amp rng t (h * i) (h * j) (2 * h) s = Inr st' \<and>
     grows V K (t, s) st' \<and> V (heights (fst st') (h * i, h * j))"
proof -
  have half: "2 * h div 2 = h" by simp
  have M: "2 \<le> 2 * m" "even (2 * m)" using m by simp_all
  let ?cs = "filter (in_grid t) (orthogonal_neighbours (h * i) (h * j) h)"
  let ?ns = "map (heights t) ?cs"
  note site = diamond_site_index[OF h dims M ij]
  have len: "length ?cs = 3 \<or> length ?cs = 4"
    using site(2) by (cases "on_edge t (h * i, h * j)") simp_all
  then have ne: "?ns \<noteq> []" by auto
  let ?v = "clamp_height (sum_list ?ns / real (length ?ns)
     + (rng s - 1 / 2) * amp (length_t t div (2 * h)))"
  have V: "V ?v"
  proof (rule closed_underD[OF cl ne])
    fix v assume "v \<in> set ?ns"
    then obtain c where c: "c \<in> set ?cs" "v = heights t c" by auto
    with site(3) obtain a b where ab: "c = (h * a, h * b)" "0 \<le> a" "a \<le> 2 * m"
      "0 \<le> b" "b \<le> 2 * m" "even (a + b)" by blast
    show "V v" unfolding c(2) ab(1) using par ab(2-6) by (rule parity_okD)
  qed
  have "in_grid t (h * i, h * j)"
    using ij by (simp add: in_grid_index[OF h dims])
  moreover have "diamond_neighbours t (h * i) (h * j) (2 * h div 2) = Inr ?ns"
    unfolding half by (rule site(1))
  moreover have "2 * h \<noteq> 0" using h by simp
  ultimately have "update_diamond amp rng t (h * i) (h * j) (2 * h) s =
      Inr (t\<lparr>heights := (heights t)((h * i, h * j) := ?v)\<rparr>, s + 1)"
    using ne by (intro update_diamond_value)
  moreover have "(h * i, h * j) \<notin> K"
  proof -
    have "odd i \<or> odd j" using ij(5) by presburger
    from odd_site_not_coarse[OF h this] K show ?thesis by blast
  qed
  ultimately show ?thesis using V grows_update[of V ?v "(h * i, h * j)" K t s "s + 1"] by simp
qed

lemma diamond_row:
  assumes h: "0 < h" and dims: "width (fst st) = h * (2 * m) + 1" "length_t (fst st) = h * (2 * m) + 1"
    and m: "1 \<le> m"
    and cl: "closed_under V amp" and par: "parity_ok V (fst st) h (2 * m)"
    and K: "\<And>c. c \<in> K \<Longrightarrow> \<exists>a b. c = (2 * h * a, 2 * h * b)"
    and j: "0 \<le> j" "j \<le> 2 * m"
  shows "\<exists>st'. for_loop (py_range ((h * j + h) mod (2 * h)) (width (fst st)) (2 * h))
        (\<lambda>x (terrain, s). update_diamond amp rng terrain x (h * j) (2 * h) s) st = Inr st' \<and>
      grows V K st st' \<and>
      (\<forall>x\<in>set (py_range ((h * j + h) mod (2 * h)) (h * (2 * m) + 1) (2 * h)).
          V (heights (fst st') (x, h * j)))"
  unfolding dims(1)
proof (rule for_loop_extends[where R = "grows V K" and Q = "\<lambda>x st. V (heights (fst st) (x, h * j))"])
  fix a st1
  assume a: "a \<in> set (py_range ((h * j + h) mod (2 * h)) (h * (2 * m) + 1) (2 * h))"
    and g: "grows V K st st1"
  from a obtain i where i: "a = h * i" "0 \<le> i" "i \<le> 2 * m" "odd (i + j)"
    using diamond_range[OF h] by blast
  obtain t1 s1 where st1: "st1 = (t1, s1)" by (cases st1)
  have d1: "width t1 = h * (2 * m) + 1" "length_t t1 = h * (2 * m) + 1"
    using grows_dims[OF g] dims st1 by simp_all
  have p1: "parity_ok V t1 h (2 * m)"
    using grows_parity_ok[OF g par] st1 by simp
  from diamond_step[OF h d1 m cl p1 K i(2,3) j i(4), where rng = rng and s = s1]
  show "\<exists>st'. (case st1 of (terrain, s) \<Rightarrow> update_diamond amp rng terrain a (h * j) (2 * h) s) = Inr st' \<and>
      grows V K st1 st' \<and> V (heights (fst st') (a, h * j))"
    by (simp add: st1 i(1))
qed (auto intro: grows_refl grows_trans grows_V)

lemma diamond_phase_ok:
  assumes h: "0 < h" and dims: "width (fst st) = h * (2 * m) + 1" "length_t (fst st) = h * (2 * m) + 1"
    and m: "1 \<le> m"
    and cl: "closed_under V amp" and par: "parity_ok V (fst st) h (2 * m)"
    and K: "\<And>c. c \<in> K \<Longrightarrow> \<exists>a b. c = (2 * h * a, 2 * h * b)"
  shows "\<exists>st'. diamond_phase amp rng (2 * h) h st = Inr st' \<and> grows V K st st' \<and>
     (\<forall>i j. 0 \<le> i \<and> i \<le> 2 * m \<and> 0 \<le> j \<and> j \<le> 2 * m \<and> odd (i + j) \<longrightarrow>
        V (heights (fst st') (h * i, h * j)))"
proof -
  let ?ys = "py_range 0 (h * (2 * m) + 1) h"
  let ?xs = "\<lambda>y. py_range ((y + h) mod (2 * h)) (h * (2 * m) + 1) (2 * h)"
  have "\<exists>st'. for_loop ?ys
        (\<lambda>y st. for_loop (py_range ((y + h) mod (2 * h)) (width (fst st)) (2 * h))
           (\<lambda>x (terrain, s). update_diamond amp rng terrain x y (2 * h) s) st) st = Inr st' \<and>
      grows V K st st' \<and> (\<forall>y\<in>set ?ys. \<forall>x\<in>set (?xs y). V (heights (fst st') (x, y)))"
  proof (rule for_loop_extends[where R = "grows V K"
        and Q = "\<lambda>y st. \<forall>x\<in>set (?xs y). V (heights (fst st) (x, y))"])
    fix a st1
    assume a: "a \<in> set ?ys" and g: "grows V K st st1"
    from a obtain j where j: "a = h * j" "0 \<le> j" "j \<le> 2 * m"
      using row_range[OF h] by blast
    have d1: "width (fst st1) = h * (2 * m) + 1" "length_t (fst st1) = h * (2 * m) + 1"
      using grows_dims[OF g] dims by simp_all
    have p1: "parity_ok V (fst st1) h (2 * m)"
      using grows_parity_ok[OF g par] .
    from diamond_row[OF h d1 m cl p1 K j(2,3), where rng = rng]
    show "\<exists>st'. for_loop (py_range ((a + h) mod (2 * h)) (width (fst st1)) (2 * h))
          (\<lambda>x (terrain, s). update_diamond amp rng terrain x a (2 * h) s) st1 = Inr st' \<and>
        grows V K st1 st' \<and> (\<forall>x\<in>set (?xs a). V (heights (fst st') (x, a)))"
      by (simp add: j(1))
  qed (auto intro: grows_refl grows_trans grows_V)
  then obtain st' where st': "for_loop ?ys
        (\<lambda>y st. for_loop (py_range ((y + h) mod (2 * h)) (width (fst st)) (2 * h))
           (\<lambda>x (terrain, s). update_diamond amp rng terrain x y (2 * h) s) st) st = Inr st'"
      "grows V K st st'" "\<forall>y\<in>set ?ys. \<forall>x\<in>set (?xs y). V (heights (fst st') (x, y))"
    by blast
  have "V (heights (fst st') (h * i, h * j))"
    if "0 \<le> i" "i \<le> 2 * m" "0 \<le> j" "j \<le> 2 * m" "odd (i + j)" for i j
  proof -
    have "h * j \<in> set ?ys" using that row_range[OF h] by blast
    moreover have "h * i \<in> set (?xs (h * j))" using that diamond_range[OF h] by blast
    ultimately show ?thesis using st'(3) by blast
  qed
  then show ?thesis
    using st'(1,2) by (auto simp: diamond_phase_def dims)
qed

section \<open>The recursion\<close>

lemma level_ok:
  assumes h: "0 < h" and dims: "width t = h * (2 * m) + 1" "length_t t = h * (2 * m) + 1"
    and m: "1 \<le> m"
    and cl: "closed_under V amp" and lat: "lattice_ok V t (2 * h) m"
    and K: "\<And>c. c \<in> K \<Longrightarrow> \<exists>a b. c = (2 * h * a, 2 * h * b)"
  shows "\<exists>st1 st2. square_phase amp rng (2 * h) h (t, s) = Inr st1 \<and>
     diamond_phase amp rng (2 * h) h st1 = Inr st2 \<and>
     grows V K (t, s) st2 \<and> lattice_ok V (fst st2) h (2 * m)"
proof -
  from square_phase_ok[OF h dims cl lat K, where rng = rng and s = s]
  obtain st1 where st1x: "square_phase amp rng (2 * h) h (t, s) = Inr st1 \<and> grows V K (t, s) st1 \<and>
     (\<forall>i j. 0 \<le> i \<and> i \<le> 2 * m \<and> odd i \<and> 0 \<le> j \<and> j \<le> 2 * m \<and> odd j \<longrightarrow>
        V (heights (fst st1) (h * i, h * j)))"
    by (rule exE)
  then have st1: "square_phase amp rng (2 * h) h (t, s) = Inr st1" "grows V K (t, s) st1"
    by simp_all
  have sq: "V (heights (fst st1) (h * i, h * j))"
    if "0 \<le> i" "i \<le> 2 * m" "odd i" "0 \<le> j" "j \<le> 2 * m" "odd j" for i j
    using st1x that by simp
  have d1: "width (fst st1) = h * (2 * m) + 1" "length_t (fst st1) = h * (2 * m) + 1"
    using grows_dims[OF st1(2)] dims by simp_all
  have p1: "parity_ok V (fst st1) h (2 * m)"
    unfolding parity_ok_def
  proof (intro allI impI)
    fix a b assume ab: "0 \<le> a \<and> a \<le> 2 * m \<and> 0 \<le> b \<and> b \<le> 2 * m \<and> even (a + b)"
    show "V (heights (fst st1) (h * a, h * b))"
    proof (cases "even a")
      case True
      with ab have "even b" by simp
      from True obtain a' where a': "a = 2 * a'" by (elim evenE)
      from \<open>even b\<close> obtain b' where b': "b = 2 * b'" by (elim evenE)
      have "V (heights t (2 * h * a', 2 * h * b'))"
        using lattice_okD[OF lat, of a' b'] ab a' b' by simp
      then have "V (heights (fst (t, s)) (h * a, h * b))"
        by (simp add: a' b' mult.assoc mult.left_commute)
      with st1(2) show ?thesis by (rule grows_V)
    next
      case False
      with ab have "odd b" by simp
      with sq[of a b] False ab show ?thesis by simp
    qed
  qed
  from diamond_phase_ok[OF h d1 m cl p1 K, where rng = rng]
  obtain st2 where st2x: "diamond_phase amp rng (2 * h) h st1 = Inr st2 \<and> grows V K st1 st2 \<and>
     (\<forall>i j. 0 \<le> i \<and> i \<le> 2 * m \<and> 0 \<le> j \<and> j \<le> 2 * m \<and> odd (i + j) \<longrightarrow>
        V (heights (fst st2) (h * i, h * j)))"
    by (rule exE)
  then have st2: "diamond_phase amp rng (2 * h) h st1 = Inr st2" "grows V K st1 st2"
    by simp_all
  have di: "V (heights (fst st2) (h * i, h * j))"
    if "0 \<le> i" "i \<le> 2 * m" "0 \<le> j" "j \<le> 2 * m" "odd (i + j)" for i j
    using st2x that by simp
  have p2: "parity_ok V (fst st2) h (2 * m)"
    using st2(2) p1 by (rule grows_parity_ok)
  have "lattice_ok V (fst st2) h (2 * m)"
    unfolding lattice_ok_def
  proof (intro allI impI)
    fix a b assume ab: "0 \<le> a \<and> a \<le> 2 * m \<and> 0 \<le> b \<and> b \<le> 2 * m"
    show "V (heights (fst st2) (h * a, h * b))"
    proof (cases "even (a + b)")
      case True
      with parity_okD[OF p2, of a b] ab show ?thesis by simp
    next
      case False
      with di[of a b] ab show ?thesis by simp
    qed
  qed
  moreover have "grows V K (t, s) st2" using st1(2) st2(2) by (rule grows_trans)
  ultimately show ?thesis using st1(1) st2(1) by blast
qed

lemma divide_stop: "square_len div 2 < 1 \<Longrightarrow> divide amp rng t square_len s = Inr (t, s)"
  by (subst divide.simps) simp

lemma divide_step:
  assumes "1 \<le> square_len div 2"
    and "square_phase amp rng square_len (square_len div 2) (t, s) = Inr st1"
    and "diamond_phase amp rng square_len (square_len div 2) st1 = Inr (t2, s2)"
  shows "divide amp rng t square_len s = divide amp rng t2 (square_len div 2) s2"
  using assms by (subst divide.simps) simp

lemma divide_ok:
  assumes cl: "closed_under V amp"
    and K: "\<And>c. c \<in> K \<Longrightarrow> \<exists>a b. c = (2 ^ k * a, 2 ^ k * b)"
    and dims: "width t = 2 ^ k * m + 1" "length_t t = 2 ^ k * m + 1"
    and m: "1 \<le> m" and lat: "lattice_ok V t (2 ^ k) m"
  shows "\<exists>t' s'. divide amp rng t (2 ^ k) s = Inr (t', s') \<and> grows V K (t, s) (t', s') \<and>
     lattice_ok V t' 1 (2 ^ k * m)"
  using K dims m lat
proof (induction k arbitrary: t s m)
  case 0
  have "divide amp rng t (2 ^ 0) s = Inr (t, s)" by (rule divide_stop) simp
  moreover have "lattice_ok V t 1 (2 ^ 0 * m)" using "0.prems"(5) by simp
  ultimately show ?case using grows_refl by blast
next
  case (Suc k)
  let ?h = "2 ^ k :: int"
  have h: "0 < ?h" by simp
  have sl: "(2 ^ Suc k :: int) = 2 * ?h" by simp
  have half: "2 * ?h div 2 = ?h" by simp
  have dims: "width t = ?h * (2 * m) + 1" "length_t t = ?h * (2 * m) + 1"
    using Suc.prems(2,3) by simp_all
  have lat: "lattice_ok V t (2 * ?h) m" using Suc.prems(5) by simp
  have K2: "\<exists>a b. c = (2 * ?h * a, 2 * ?h * b)" if "c \<in> K" for c
    using Suc.prems(1)[OF that] by simp
  from level_ok[OF h dims Suc.prems(4) cl lat K2, where rng = rng and s = s]
  obtain st1 st2 where lv: "square_phase amp rng (2 * ?h) ?h (t, s) = Inr st1"
    "diamond_phase amp rng (2 * ?h) ?h st1 = Inr st2" "grows V K (t, s) st2"
    "lattice_ok V (fst st2) ?h (2 * m)"
    by blast
  obtain t2 s2 where st2: "st2 = (t2, s2)" by (cases st2)
  have d2: "width t2 = ?h * (2 * m) + 1" "length_t t2 = ?h * (2 * m) + 1"
    using grows_dims[OF lv(3)] dims st2 by simp_all
  have K1: "\<exists>a b. c = (?h * a, ?h * b)" if "c \<in> K" for c
  proof -
    from K2[OF that] obtain a b where "c = (2 * ?h * a, 2 * ?h * b)" by blast
    then have "c = (?h * (2 * a), ?h * (2 * b))" by (simp add: mult.assoc mult.left_commute)
    then show ?thesis by blast
  qed
  have m2: "1 \<le> 2 * m" using Suc.prems(4) by simp
  have lat2: "lattice_ok V t2 ?h (2 * m)" using lv(4) st2 by simp
  from Suc.IH[OF K1 d2 m2 lat2, of s2]
  obtain t' s' where r: "divide amp rng t2 ?h s2 = Inr (t', s')" "grows V K (t2, s2) (t', s')"
    "lattice_ok V t' 1 (?h * (2 * m))"
    by blast
  have "divide amp rng t (2 * ?h) s = divide amp rng t2 (2 * ?h div 2) s2"
  proof (rule divide_step)
    show "1 \<le> 2 * ?h div 2" unfolding half by simp
    show "square_phase amp rng (2 * ?h) (2 * ?h div 2) (t, s) = Inr st1"
      unfolding half by (rule lv(1))
    show "diamond_phase amp rng (2 * ?h) (2 * ?h div 2) st1 = Inr (t2, s2)"
      unfolding half using lv(2) st2 by simp
  qed
  then have "divide amp rng t (2 ^ Suc k) s = Inr (t', s')"
    unfolding half sl using r(1) by simp
  moreover have "grows V K (t, s) (t', s')"
    using lv(3) r(2) unfolding st2 by (rule grows_trans)
  moreover have "lattice_ok V t' 1 (2 ^ Suc k * m)"
    using r(3) by (simp add: mult.assoc mult.left_commute)
  ultimately show ?case by blast
qed

lemma divide_trace_result: "snd (divide_trace amp rng t square_len s) = divide amp rng t square_len s"
proof (induction amp rng t square_len s rule: divide_trace.induct)
  case (1 amp rng terrain square_len s)
  show ?case
  proof (cases "square_len div 2 < 1")
    case True
    then show ?thesis by (subst divide_trace.simps, subst divide.simps) simp
  next
    case False
    show ?thesis
    proof (cases "square_phase amp rng square_len (square_len div 2) (terrain, s)")
      case (Inl e)
      with False show ?thesis by (subst divide_trace.simps, subst divide.simps) simp
    next
      case (Inr st1)
      note sq = this
      show ?thesis
      proof (cases "diamond_phase amp rng square_len (square_len div 2) st1")
        case (Inl e)
        with False sq show ?thesis by (subst divide_trace.simps, subst divide.simps) simp
      next
        case (Inr st2)
        obtain t2 s2 where st2: "st2 = (t2, s2)" by (cases st2)
        have "snd (divide_trace amp rng t2 (square_len div 2) s2) =
            divide amp rng t2 (square_len div 2) s2"
          using "1.IH"[OF refl False sq _ refl, of t2 s2] Inr st2 by simp
        with False sq Inr st2 show ?thesis
          by (subst divide_trace.simps, subst divide.simps) (simp add: Let_def)
      qed
    qed
  qed
qed

lemma divide_trace_levels:
  assumes "divide amp rng t (2 ^ k) s = Inr r"
  shows "fst (divide_trace amp rng t (2 ^ k) s) = map (\<lambda>i. 2 ^ (k - i)) [0..<Suc k]"
  using assms
proof (induction k arbitrary: t s)
  case 0
  show ?case by (subst divide_trace.simps) simp
next
  case (Suc k)
  let ?sl = "2 ^ Suc k :: int"
  have half: "?sl div 2 = 2 ^ k" by simp
  have "(1::int) \<le> 2 ^ k" by (rule one_le_power) simp
  then have ge: "\<not> ?sl div 2 < 1" unfolding half by linarith
  from Suc.prems ge obtain st1 where sq: "square_phase amp rng ?sl (?sl div 2) (t, s) = Inr st1"
    by (subst (asm) divide.simps) (auto simp: Let_def split: sum.splits)
  from Suc.prems ge sq obtain t2 s2 where di: "diamond_phase amp rng ?sl (?sl div 2) st1 = Inr (t2, s2)"
    by (subst (asm) divide.simps) (auto simp: Let_def split: sum.splits)
  have "divide amp rng t ?sl s = divide amp rng t2 (?sl div 2) s2"
    using ge sq di by (intro divide_step) simp_all
  with Suc.prems have "divide amp rng t2 (2 ^ k) s2 = Inr r" unfolding half by simp
  from Suc.IH[OF this]
  have IH: "fst (divide_trace amp rng t2 (2 ^ k) s2) = map (\<lambda>i. 2 ^ (k - i)) [0..<Suc k]" .
  have "fst (divide_trace amp rng t ?sl s) = ?sl # fst (divide_trace amp rng t2 (?sl div 2) s2)"
    using ge sq di by (subst divide_trace.simps) (simp add: Let_def)
  also have "\<dots> = ?sl # map (\<lambda>i. 2 ^ (k - i)) [0..<Suc k]"
    unfolding half IH ..
  also have "\<dots> = map (\<lambda>i. 2 ^ (Suc k - i)) [0..<Suc (Suc k)]"
  proof -
    have "[0..<Suc (Suc k)] = 0 # map Suc [0..<Suc k]"
      by (simp only: map_Suc_upt upt_conv_Cons[of 0 "Suc (Suc k)"] zero_less_Suc)
    then show ?thesis by (simp add: comp_def del: upt_Suc)
  qed
  finally show ?case .
qed

section \<open>The generator\<close>

lemma initialize_corners_int:
  assumes "1 \<le> N"
  shows "initialize_corners \<lparr>width = N + 1, length_t = N + 1, heights = f\<rparr> v =
     Inr \<lparr>width = N + 1, length_t = N + 1,
          heights = f((0, 0) := v, (0, N) := v, (N, 0) := v, (N, N) := v)\<rparr>"
  using assms by (simp add: initialize_corners_def Terrain_set_def)

lemma call_ok:
  assumes cl: "closed_under V amp" and V: "V (1 / 2)" and e: "0 \<le> side_exp"
  shows "\<exists>t s'. call amp rng init side_exp s = Inr (IntTerrain t, s') \<and>
     width t = 2 ^ nat side_exp + 1 \<and> length_t t = 2 ^ nat side_exp + 1 \<and>
     lattice_ok V t 1 (2 ^ nat side_exp) \<and>
     heights t (0, 0) = 1 / 2 \<and> heights t (0, 2 ^ nat side_exp) = 1 / 2 \<and>
     heights t (2 ^ nat side_exp, 0) = 1 / 2 \<and>
     heights t (2 ^ nat side_exp, 2 ^ nat side_exp) = 1 / 2"
proof -
  let ?N = "2 ^ nat side_exp :: int"
  let ?f = "\<lambda>(x, y). init (real_of_int x, real_of_int y)"
  let ?t1 = "\<lparr>width = ?N + 1, length_t = ?N + 1,
     heights = ?f((0, 0) := 1 / 2, (0, ?N) := 1 / 2, (?N, 0) := 1 / 2, (?N, ?N) := 1 / 2)\<rparr>"
  let ?K = "{(0, 0), (0, ?N), (?N, 0), (?N, ?N)}"
  have N: "1 \<le> ?N" by (rule one_le_power) simp
  have create: "Terrain_create ?f (?N + 1) (?N + 1) =
      Inr \<lparr>width = ?N + 1, length_t = ?N + 1, heights = ?f\<rparr>"
  proof -
    have "\<not> (?N + 1 \<le> 0 \<or> ?N + 1 \<le> 0)" using N by linarith
    then show ?thesis by (simp only: Terrain_create_def if_False)
  qed
  have corners: "initialize_corners \<lparr>width = ?N + 1, length_t = ?N + 1, heights = ?f\<rparr> (1 / 2) = Inr ?t1"
    using N by (rule initialize_corners_int)
  have K: "\<exists>a b. c = (?N * a, ?N * b)" if "c \<in> ?K" for c
  proof -
    from that consider "c = (?N * 0, ?N * 0)" | "c = (?N * 0, ?N * 1)"
      | "c = (?N * 1, ?N * 0)" | "c = (?N * 1, ?N * 1)" by auto
    then show ?thesis by cases blast+
  qed
  have lat: "lattice_ok V ?t1 ?N 1"
    unfolding lattice_ok_def
  proof (intro allI impI)
    fix a b :: int assume "0 \<le> a \<and> a \<le> 1 \<and> 0 \<le> b \<and> b \<le> 1"
    then have "(a = 0 \<or> a = 1) \<and> (b = 0 \<or> b = 1)" by auto
    then show "V (heights ?t1 (?N * a, ?N * b))" using V by auto
  qed
  have "\<exists>t' s'. divide amp rng ?t1 ?N s = Inr (t', s') \<and> grows V ?K (?t1, s) (t', s') \<and>
     lattice_ok V t' 1 (?N * 1)"
  proof (rule divide_ok[OF cl K _ _ _ lat])
    show "width ?t1 = ?N * 1 + 1" "length_t ?t1 = ?N * 1 + 1" "(1::int) \<le> 1" by simp_all
  qed
  then obtain t' s' where d: "divide amp rng ?t1 ?N s = Inr (t', s') \<and> grows V ?K (?t1, s) (t', s') \<and>
     lattice_ok V t' 1 (?N * 1)"
    by (elim exE)
  then have g: "grows V ?K (?t1, s) (t', s')" by simp
  from grows_dims[OF g] have dims: "width t' = ?N + 1" "length_t t' = ?N + 1" by simp_all
  from g have "\<forall>c\<in>?K. heights (fst (t', s')) c = heights (fst (?t1, s)) c"
    unfolding grows_def by blast
  then have keep: "heights t' c = heights ?t1 c" if "c \<in> ?K" for c
    using that unfolding fst_conv by blast
  have c1: "heights t' (0, 0) = 1 / 2" using keep[of "(0, 0)"] by simp
  have c2: "heights t' (0, ?N) = 1 / 2" using keep[of "(0, ?N)"] by simp
  have c3: "heights t' (?N, 0) = 1 / 2" using keep[of "(?N, 0)"] by simp
  have c4: "heights t' (?N, ?N) = 1 / 2" using keep[of "(?N, ?N)"] by simp
  have "call amp rng init side_exp s = Inr (IntTerrain t', s')"
    using e d by (simp add: call_def Let_def create corners)
  moreover have "lattice_ok V t' 1 ?N" using d by simp
  ultimately show ?thesis using dims c1 c2 c3 c4 by blast
qed

lemma lattice_ok_all:
  assumes "lattice_ok V t 1 N" "width t = N + 1" "length_t t = N + 1"
    and "0 \<le> x" "x < width t" "0 \<le> y" "y < length_t t"
  shows "V (heights t (x, y))"
  using lattice_okD[OF assms(1), of x y] assms(2-) by simp

lemma clamp_height_range: "0 \<le> clamp_height v \<and> clamp_height v \<le> 1"
  by (simp add: clamp_height_def)

lemma closed_under_unit: "closed_under (\<lambda>v. 0 \<le> v \<and> v \<le> 1) amp"
  unfolding closed_under_def by (simp add: clamp_height_range)

lemma closed_under_True: "closed_under (\<lambda>v. True) amp"
  unfolding closed_under_def by simp

lemma sum_list_const: "(\<And>v. v \<in> set vs \<Longrightarrow> v = c) \<Longrightarrow> sum_list vs = real (length vs) * (c::real)"
  by (induction vs) (simp_all add: algebra_simps)

lemma closed_under_half:
  assumes "\<And>f. amp f = 0"
  shows "closed_under (\<lambda>v. v = 1 / 2) amp"
  unfolding closed_under_def
proof (intro allI impI)
  fix vs :: "real list" and r :: real and f :: int
  assume a: "vs \<noteq> [] \<and> (\<forall>v\<in>set vs. v = 1 / 2)"
  then have "sum_list vs = real (length vs) * (1 / 2)" by (intro sum_list_const) simp
  moreover have "real (length vs) \<noteq> 0" using a by simp
  ultimately have "sum_list vs / real (length vs) = 1 / 2" by simp
  then have eq: "sum_list vs / real (length vs) + (r - 1 / 2) * amp f = 1 / 2"
    by (simp only: assms)
  show "clamp_height (sum_list vs / real (length vs) + (r - 1 / 2) * amp f) = 1 / 2"
    unfolding eq by (simp add: clamp_height_def)
qed

lemma divide_total:
  assumes "width t = 2 ^ k + 1" "length_t t = 2 ^ k + 1"
  shows "\<exists>t' s'. divide amp rng t (2 ^ k) s = Inr (t', s') \<and> width t' = width t \<and> length_t t' = length_t t"
proof -
  have lat: "lattice_ok (\<lambda>v. True) t (2 ^ k) 1" by (simp add: lattice_ok_def)
  have "\<exists>t' s'. divide amp rng t (2 ^ k) s = Inr (t', s') \<and> grows (\<lambda>v. True) {} (t, s) (t', s') \<and>
     lattice_ok (\<lambda>v. True) t' 1 (2 ^ k * 1)"
  proof (rule divide_ok[OF closed_under_True _ _ _ _ lat])
    show "width t = 2 ^ k * 1 + 1" "length_t t = 2 ^ k * 1 + 1" "(1::int) \<le> 1"
      using assms by simp_all
  qed simp
  then obtain t' s' where "divide amp rng t (2 ^ k) s = Inr (t', s')" "grows (\<lambda>v. True) {} (t, s) (t', s')"
    by blast
  with grows_dims[OF this(2)] show ?thesis by simp
qed

section \<open>The gradient vectors\<close>

lemma py_range_count: "x \<in> set (py_range 0 n 1) \<longleftrightarrow> 0 \<le> x \<and> x < n"
  by (simp add: py_range_mem)

lemma gradient_vector_ok:
  assumes "0 \<le> rng s" "rng s \<le> 1"
  shows "\<exists>v. gradient_vector rng m s = Inr (v, s + 1) \<and> (fst v)\<^sup>2 + (snd v)\<^sup>2 = m\<^sup>2"
proof -
  have "(rng s)\<^sup>2 \<le> 1" using assms by (simp add: power_le_one)
  then have "(rng s)\<^sup>2 * m\<^sup>2 \<le> 1 * m\<^sup>2" by (intro mult_right_mono) simp_all
  then have nonneg: "0 \<le> m\<^sup>2 - (rng s * m)\<^sup>2" by (simp add: power_mult_distrib)
  then have "\<not> m\<^sup>2 - (rng s * m)\<^sup>2 < 0" by simp
  then have "gradient_vector rng m s =
      Inr ((rng s * m, sqrt (m\<^sup>2 - (rng s * m)\<^sup>2)), s + 1)"
    by (simp only: gradient_vector_def Let_def if_False)
  moreover have "(rng s * m)\<^sup>2 + (sqrt (m\<^sup>2 - (rng s * m)\<^sup>2))\<^sup>2 = m\<^sup>2"
    using nonneg by (simp only: real_sqrt_pow2)
  ultimately show ?thesis by simp
qed

lemma grads_grow_refl: "grads_grow m st st"
  by (simp add: grads_grow_def)

lemma grads_grow_trans: "grads_grow m st1 st2 \<Longrightarrow> grads_grow m st2 st3 \<Longrightarrow> grads_grow m st1 st3"
proof -
  assume a: "grads_grow m st1 st2" and b: "grads_grow m st2 st3"
  have len: "length (fst st2) = length (fst st1)" "length (fst st3) = length (fst st2)"
    using a b by (simp_all add: grads_grow_def)
  have row: "length (fst st2 ! y) = length (fst st1 ! y)" "length (fst st3 ! y) = length (fst st2 ! y)"
    if "y < length (fst st1)" for y
    using a b that len by (simp_all add: grads_grow_def)
  have keep: "(fst (fst st3 ! y ! x))\<^sup>2 + (snd (fst st3 ! y ! x))\<^sup>2 = m\<^sup>2"
    if "y < length (fst st1)" "x < length (fst st1 ! y)"
      "(fst (fst st1 ! y ! x))\<^sup>2 + (snd (fst st1 ! y ! x))\<^sup>2 = m\<^sup>2" for x y
  proof -
    have "(fst (fst st2 ! y ! x))\<^sup>2 + (snd (fst st2 ! y ! x))\<^sup>2 = m\<^sup>2"
      using a that unfolding grads_grow_def by blast
    moreover have "y < length (fst st2)" "x < length (fst st2 ! y)"
      using that len row by simp_all
    ultimately show ?thesis using b unfolding grads_grow_def by blast
  qed
  show ?thesis
    unfolding grads_grow_def using len row keep by simp
qed

lemma grads_grow_update:
  assumes "j < length g" "i < length (g ! j)" "(fst v)\<^sup>2 + (snd v)\<^sup>2 = m\<^sup>2"
  shows "grads_grow m (g, s) (g[j := (g ! j)[i := v]], s')"
  unfolding grads_grow_def using assms
  by (auto simp: nth_list_update)

lemma grads_grow_shape:
  assumes "grads_grow m st st'" "length (fst st) = n" "\<forall>y<n. length (fst st ! y) = k"
  shows "length (fst st') = n \<and> (\<forall>y<n. length (fst st' ! y) = k)"
  using assms unfolding grads_grow_def by simp

lemma grads_grow_keep:
  assumes "grads_grow m st st'" "j < length (fst st)" "i < length (fst st ! j)"
    "(fst (fst st ! j ! i))\<^sup>2 + (snd (fst st ! j ! i))\<^sup>2 = m\<^sup>2"
  shows "j < length (fst st') \<and> i < length (fst st' ! j) \<and>
     (fst (fst st' ! j ! i))\<^sup>2 + (snd (fst st' ! j ! i))\<^sup>2 = m\<^sup>2"
  using assms unfolding grads_grow_def by simp

lemma gradient_body:
  assumes rng: "\<And>n. 0 \<le> rng n \<and> rng n \<le> 1"
    and y: "0 \<le> y" "nat y < length g" and x: "0 \<le> x" "nat x < length (g ! nat y)"
  shows "\<exists>st'. (case gradient_vector rng m s of Inl e \<Rightarrow> Inl e | Inr (v, s') \<Rightarrow>
        (case set_grad_vec g y x v of Inl e \<Rightarrow> Inl e | Inr g' \<Rightarrow> Inr (g', s'))) = Inr st' \<and>
     grads_grow m (g, s) st' \<and> nat y < length (fst st') \<and> nat x < length (fst st' ! nat y) \<and>
     (fst (fst st' ! nat y ! nat x))\<^sup>2 + (snd (fst st' ! nat y ! nat x))\<^sup>2 = m\<^sup>2"
proof -
  from gradient_vector_ok[of rng s m] rng
  obtain v where v: "gradient_vector rng m s = Inr (v, s + 1)" "(fst v)\<^sup>2 + (snd v)\<^sup>2 = m\<^sup>2"
    by blast
  let ?g = "g[nat y := (g ! nat y)[nat x := v]]"
  have "y < int (length g)" "x < int (length (g ! nat y))" using y x by simp_all
  then have set: "set_grad_vec g y x v = Inr ?g"
    using y(1) x(1) by (simp add: set_grad_vec_def)
  have grow: "grads_grow m (g, s) (?g, s + 1)"
    using y(2) x(2) v(2) by (rule grads_grow_update)
  have "nat y < length ?g" "nat x < length (?g ! nat y)" "?g ! nat y ! nat x = v"
    using y(2) x(2) by simp_all
  with v set grow show ?thesis by simp
qed

lemma gradient_column:
  assumes rng: "\<And>n. 0 \<le> rng n \<and> rng n \<le> 1"
    and shape: "length (fst st) = nat l" "\<forall>y<nat l. length (fst st ! y) = nat w"
    and x: "0 \<le> x" "x < w"
  shows "\<exists>st'. for_loop (py_range 0 l 1)
        (\<lambda>y (grad_vecs, s).
           (case gradient_vector rng m s of Inl e \<Rightarrow> Inl e | Inr (v, s') \<Rightarrow>
           (case set_grad_vec grad_vecs y x v of Inl e \<Rightarrow> Inl e
            | Inr grad_vecs' \<Rightarrow> Inr (grad_vecs', s')))) st = Inr st' \<and>
      grads_grow m st st' \<and>
      (\<forall>y\<in>set (py_range 0 l 1). nat y < length (fst st') \<and> nat x < length (fst st' ! nat y) \<and>
         (fst (fst st' ! nat y ! nat x))\<^sup>2 + (snd (fst st' ! nat y ! nat x))\<^sup>2 = m\<^sup>2)"
proof (rule for_loop_extends[where R = "grads_grow m"
      and Q = "\<lambda>y st. nat y < length (fst st) \<and> nat x < length (fst st ! nat y) \<and>
         (fst (fst st ! nat y ! nat x))\<^sup>2 + (snd (fst st ! nat y ! nat x))\<^sup>2 = m\<^sup>2"])
  fix a st1
  assume a: "a \<in> set (py_range 0 l 1)" and g: "grads_grow m st st1"
  obtain g1 s1 where st1: "st1 = (g1, s1)" by (cases st1)
  from a have a': "0 \<le> a" "a < l" by (simp_all add: py_range_count)
  from grads_grow_shape[OF g shape] have sh: "length g1 = nat l" "\<forall>y<nat l. length (g1 ! y) = nat w"
    by (simp_all add: st1)
  have ay: "nat a < length g1" using a' sh(1) by simp
  then have ax: "nat x < length (g1 ! nat a)" using sh x by simp
  from gradient_body[OF rng a'(1) ay x(1) ax, where m = m and s = s1]
  show "\<exists>st'. (case st1 of (grad_vecs, s) \<Rightarrow>
           (case gradient_vector rng m s of Inl e \<Rightarrow> Inl e | Inr (v, s') \<Rightarrow>
           (case set_grad_vec grad_vecs a x v of Inl e \<Rightarrow> Inl e
            | Inr grad_vecs' \<Rightarrow> Inr (grad_vecs', s')))) = Inr st' \<and>
      grads_grow m st1 st' \<and> nat a < length (fst st') \<and> nat x < length (fst st' ! nat a) \<and>
      (fst (fst st' ! nat a ! nat x))\<^sup>2 + (snd (fst st' ! nat a ! nat x))\<^sup>2 = m\<^sup>2"
    by (simp add: st1)
next
  fix a st1 st2
  assume "nat a < length (fst st1) \<and> nat x < length (fst st1 ! nat a) \<and>
     (fst (fst st1 ! nat a ! nat x))\<^sup>2 + (snd (fst st1 ! nat a ! nat x))\<^sup>2 = m\<^sup>2"
    and "grads_grow m st1 st2"
  then show "nat a < length (fst st2) \<and> nat x < length (fst st2 ! nat a) \<and>
     (fst (fst st2 ! nat a ! nat x))\<^sup>2 + (snd (fst st2 ! nat a ! nat x))\<^sup>2 = m\<^sup>2"
    using grads_grow_keep by blast
qed (auto intro: grads_grow_refl grads_grow_trans)

text \<open>
  For any numbers of squares and any draws in \<open>[0, 1]\<close>, \<open>init_gradients\<close> returns
  \<open>length_in_squares\<close> rows of \<open>width_in_squares\<close> vectors each (one per square), every one of
  magnitude \<open>|vec_magnitude|\<close>.
\<close>

lemma init_gradients_shape:
  assumes rng: "\<And>n. 0 \<le> rng n \<and> rng n \<le> 1"
  shows "\<exists>g s'. init_gradients rng w l m s = Inr (g, s') \<and> length g = nat l \<and>
     (\<forall>row\<in>set g. length row = nat w \<and> (\<forall>v\<in>set row. (fst v)\<^sup>2 + (snd v)\<^sup>2 = m\<^sup>2))"
proof -
  let ?st0 = "(replicate (nat l) (replicate (nat w) (0::real, 0::real)), s)"
  let ?P = "\<lambda>st y x. nat y < length (fst st) \<and> nat x < length (fst st ! nat y) \<and>
         (fst (fst st ! nat y ! nat x))\<^sup>2 + (snd (fst st ! nat y ! nat x))\<^sup>2 = m\<^sup>2"
  have shape0: "length (fst ?st0) = nat l" "\<forall>y<nat l. length (fst ?st0 ! y) = nat w"
    by simp_all
  have "\<exists>st'. init_gradients rng w l m s = Inr st' \<and> grads_grow m ?st0 st' \<and>
      (\<forall>x\<in>set (py_range 0 w 1). \<forall>y\<in>set (py_range 0 l 1). ?P st' y x)"
    unfolding init_gradients_def
  proof (rule for_loop_extends[where R = "grads_grow m"
        and Q = "\<lambda>x st. \<forall>y\<in>set (py_range 0 l 1). ?P st y x"])
    fix a st1
    assume a: "a \<in> set (py_range 0 w 1)" and g: "grads_grow m ?st0 st1"
    from a have a': "0 \<le> a" "a < w" by (simp_all add: py_range_count)
    from grads_grow_shape[OF g shape0]
    have sh: "length (fst st1) = nat l" "\<forall>y<nat l. length (fst st1 ! y) = nat w" by simp_all
    from gradient_column[OF rng sh a', where m = m]
    show "\<exists>st'. for_loop (py_range 0 l 1)
          (\<lambda>y (grad_vecs, s).
             (case gradient_vector rng m s of Inl e \<Rightarrow> Inl e | Inr (v, s') \<Rightarrow>
             (case set_grad_vec grad_vecs y a v of Inl e \<Rightarrow> Inl e
              | Inr grad_vecs' \<Rightarrow> Inr (grad_vecs', s')))) st1 = Inr st' \<and>
        grads_grow m st1 st' \<and> (\<forall>y\<in>set (py_range 0 l 1). ?P st' y a)" .
  next
    fix a st1 st2
    assume "\<forall>y\<in>set (py_range 0 l 1). ?P st1 y a" and "grads_grow m st1 st2"
    then show "\<forall>y\<in>set (py_range 0 l 1). ?P st2 y a"
      using grads_grow_keep by blast
  qed (auto intro: grads_grow_refl grads_grow_trans)
  then obtain g s' where r: "init_gradients rng w l m s = Inr (g, s')"
    "grads_grow m ?st0 (g, s')"
    "\<forall>x\<in>set (py_range 0 w 1). \<forall>y\<in>set (py_range 0 l 1). ?P (g, s') y x"
    by (metis surj_pair)
  from grads_grow_shape[OF r(2) shape0]
  have sh: "length g = nat l" "\<forall>y<nat l. length (g ! y) = nat w" by simp_all
  have "length row = nat w \<and> (\<forall>v\<in>set row. (fst v)\<^sup>2 + (snd v)\<^sup>2 = m\<^sup>2)" if "row \<in> set g" for row
  proof -
    from that obtain j where j: "j < length g" "row = g ! j" by (auto simp: in_set_conv_nth)
    have len: "length row = nat w" using j sh by simp
    have "(fst v)\<^sup>2 + (snd v)\<^sup>2 = m\<^sup>2" if "v \<in> set row" for v
    proof -
      from that obtain i where i: "i < length row" "v = row ! i" by (auto simp: in_set_conv_nth)
      have "int i \<in> set (py_range 0 w 1)" "int j \<in> set (py_range 0 l 1)"
        using i(1) j(1) len sh(1) by (simp_all add: py_range_count)
      with r(3) have "?P (g, s') (int j) (int i)" by blast
      then show ?thesis using i(2) j(2) by simp
    qed
    with len show ?thesis by blast
  qed
  with r(1) sh(1) show ?thesis by blast
qed

section \<open>The claims\<close>

text \<open>
  Claim C5. Every update applies the hard clamping policy. When \<open>update_square\<close> returns,
  the cell \<open>(x, y)\<close> holds \<open>clamp_height (mean + offset)\<close>, where the mean is that of the four
  diagonal heights and the offset is \<open>(rng s - 1/2) * amp frequency\<close>; when \<open>update_diamond\<close>
  returns, the cell holds \<open>clamp_height (mean + offset)\<close> for the mean of the neighbours it
  read. \<open>clamp_height v\<close> is 1 for \<open>v > 1\<close>, 0 for \<open>v < 0\<close> and \<open>v\<close> otherwise.
\<close>

theorem update_applies_clamping_policy:
  "(update_square amp rng t x y square_len s = Inr (t', s') \<longrightarrow>
      heights t' (x, y) = clamp_height
        (sum_list [heights t (x - square_len div 2, y - square_len div 2),
                   heights t (x - square_len div 2, y + square_len div 2),
                   heights t (x + square_len div 2, y - square_len div 2),
                   heights t (x + square_len div 2, y + square_len div 2)] / 4
         + (rng s - 1 / 2) * amp (length_t t div square_len))) \<and>
   (update_diamond amp rng t x y diamond_len s = Inr (t', s') \<longrightarrow>
      (\<exists>neighbours. diamond_neighbours t x y (diamond_len div 2) = Inr neighbours \<and>
         heights t' (x, y) = clamp_height
           (sum_list neighbours / real (length neighbours)
            + (rng s - 1 / 2) * amp (length_t t div diamond_len))))"
proof (rule conjI; rule impI)
  assume "update_square amp rng t x y square_len s = Inr (t', s')"
  from update_square_Inr[OF this]
  show "heights t' (x, y) = clamp_height
        (sum_list [heights t (x - square_len div 2, y - square_len div 2),
                   heights t (x - square_len div 2, y + square_len div 2),
                   heights t (x + square_len div 2, y - square_len div 2),
                   heights t (x + square_len div 2, y + square_len div 2)] / 4
         + (rng s - 1 / 2) * amp (length_t t div square_len))"
    by simp
next
  assume "update_diamond amp rng t x y diamond_len s = Inr (t', s')"
  from update_diamond_Inr[OF this]
  show "\<exists>neighbours. diamond_neighbours t x y (diamond_len div 2) = Inr neighbours \<and>
         heights t' (x, y) = clamp_height
           (sum_list neighbours / real (length neighbours)
            + (rng s - 1 / 2) * amp (length_t t div diamond_len))"
    by auto
qed

lemma example_square:
  "update_square (\<lambda>f. 4) (\<lambda>n. 3 / 4) \<lparr>width = 3, length_t = 3, heights = (\<lambda>c. 1 / 2)\<rparr> 1 1 2 0 =
     Inr (\<lparr>width = 3, length_t = 3, heights = (\<lambda>c. 1 / 2)((1, 1) := 1)\<rparr>, 1)"
  by (simp add: update_square_def Terrain_get_def noise_offset_def store_height_def Terrain_set_def)

lemma example_diamond:
  "update_diamond (\<lambda>f. 4) (\<lambda>n. 3 / 4) \<lparr>width = 3, length_t = 3, heights = (\<lambda>c. 1 / 2)\<rparr> 1 0 2 0 =
     Inr (\<lparr>width = 3, length_t = 3, heights = (\<lambda>c. 1 / 2)((1, 0) := 1)\<rparr>, 1)"
  by (simp add: update_diamond_def diamond_neighbours_def append_neighbour_def Terrain_get_def
      noise_offset_def store_height_def Terrain_set_def)

theorem update_applies_clamping_policy_witness:
  "update_square (\<lambda>f. 4) (\<lambda>n. 3 / 4) \<lparr>width = 3, length_t = 3, heights = (\<lambda>c. 1 / 2)\<rparr> 1 1 2 0 =
     Inr (\<lparr>width = 3, length_t = 3, heights = (\<lambda>c. 1 / 2)((1, 1) := 1)\<rparr>, 1) \<and>
   heights \<lparr>width = 3, length_t = 3, heights = (\<lambda>c. 1 / 2)((1, 1) := 1)\<rparr> (1, 1) =
     clamp_height (sum_list [1 / 2, 1 / 2, 1 / 2, 1 / 2] / 4 + (3 / 4 - 1 / 2) * 4)"
  using update_applies_clamping_policy[of "\<lambda>f. 4" "\<lambda>n. 3 / 4"
      "\<lparr>width = 3, length_t = 3, heights = (\<lambda>c. 1 / 2)\<rparr>" 1 1 2 0
      "\<lparr>width = 3, length_t = 3, heights = (\<lambda>c. 1 / 2)((1, 1) := 1)\<rparr>" 1 2]
    example_square
  by simp

text \<open>
  Claim C10. A call of \<open>update_square\<close> or \<open>update_diamond\<close> that returns has changed at
  most the cell \<open>(x, y)\<close>: every other cell keeps its height, and the width and length of
  the terrain are unchanged.
\<close>

theorem update_changes_only_its_cell:
  "(update_square amp rng t x y square_len s = Inr (t', s') \<longrightarrow>
      width t' = width t \<and> length_t t' = length_t t \<and>
      (\<forall>c. c \<noteq> (x, y) \<longrightarrow> heights t' c = heights t c)) \<and>
   (update_diamond amp rng t x y diamond_len s = Inr (t', s') \<longrightarrow>
      width t' = width t \<and> length_t t' = length_t t \<and>
      (\<forall>c. c \<noteq> (x, y) \<longrightarrow> heights t' c = heights t c))"
proof (rule conjI; rule impI)
  assume "update_square amp rng t x y square_len s = Inr (t', s')"
  from update_square_Inr[OF this]
  show "width t' = width t \<and> length_t t' = length_t t \<and>
      (\<forall>c. c \<noteq> (x, y) \<longrightarrow> heights t' c = heights t c)"
    by simp
next
  assume "update_diamond amp rng t x y diamond_len s = Inr (t', s')"
  from update_diamond_Inr[OF this]
  show "width t' = width t \<and> length_t t' = length_t t \<and>
      (\<forall>c. c \<noteq> (x, y) \<longrightarrow> heights t' c = heights t c)"
    by auto
qed

theorem update_changes_only_its_cell_witness:
  "update_diamond (\<lambda>f. 4) (\<lambda>n. 3 / 4) \<lparr>width = 3, length_t = 3, heights = (\<lambda>c. 1 / 2)\<rparr> 1 0 2 0 =
     Inr (\<lparr>width = 3, length_t = 3, heights = (\<lambda>c. 1 / 2)((1, 0) := 1)\<rparr>, 1) \<and>
   width \<lparr>width = 3, length_t = 3, heights = (\<lambda>c. 1 / 2)((1, 0) := 1)\<rparr> = (3::int) \<and>
   heights \<lparr>width = 3::int, length_t = 3, heights = (\<lambda>c. 1 / 2)((1, 0) := 1)\<rparr> (0, 0) = 1 / 2"
  using update_changes_only_its_cell[of "\<lambda>f. 4" "\<lambda>n. 3 / 4"
      "\<lparr>width = 3, length_t = 3, heights = (\<lambda>c. 1 / 2)\<rparr>" 1 0 2 0
      "\<lparr>width = 3, length_t = 3, heights = (\<lambda>c. 1 / 2)((1, 0) := 1)\<rparr>" 1 2]
    example_diamond
  by simp

text \<open>
  Claim C1. For every \<open>side_exp \<ge> 0\<close>, every amplitude function, every sequence of random
  draws and any initial content of the fresh terrain, the call returns a terrain of side
  length \<open>2 ^ side_exp + 1\<close>, and every cell inside its grid holds a height in \<open>[0, 1]\<close>.
\<close>

theorem call_heights_in_unit_interval:
  assumes "0 \<le> side_exp"
  shows "\<exists>t s'. call amp rng init side_exp s = Inr (IntTerrain t, s') \<and>
     width t = 2 ^ nat side_exp + 1 \<and> length_t t = 2 ^ nat side_exp + 1 \<and>
     (\<forall>x y. 0 \<le> x \<and> x < width t \<and> 0 \<le> y \<and> y < length_t t \<longrightarrow>
        0 \<le> heights t (x, y) \<and> heights t (x, y) \<le> 1)"
proof -
  from call_ok[OF closed_under_unit _ assms, of amp rng init s]
  obtain t s' where r: "call amp rng init side_exp s = Inr (IntTerrain t, s')"
    "width t = 2 ^ nat side_exp + 1" "length_t t = 2 ^ nat side_exp + 1"
    "lattice_ok (\<lambda>v. 0 \<le> v \<and> v \<le> 1) t 1 (2 ^ nat side_exp)"
    by auto
  have "0 \<le> heights t (x, y) \<and> heights t (x, y) \<le> 1"
    if "0 \<le> x" "x < width t" "0 \<le> y" "y < length_t t" for x y
    using lattice_ok_all[OF r(4,2,3) that] .
  with r(1,2,3) show ?thesis by blast
qed

theorem call_heights_in_unit_interval_witness:
  "(0::int) \<le> 2 \<and>
   (\<exists>t s'. call (\<lambda>f. real_of_int f) (\<lambda>n. 1 / 4) (\<lambda>c. 7) 2 0 = Inr (IntTerrain t, s') \<and>
     width t = 2 ^ nat 2 + 1 \<and> length_t t = 2 ^ nat 2 + 1 \<and>
     (\<forall>x y. 0 \<le> x \<and> x < width t \<and> 0 \<le> y \<and> y < length_t t \<longrightarrow>
        0 \<le> heights t (x, y) \<and> heights t (x, y) \<le> 1))"
  using call_heights_in_unit_interval[of 2 "\<lambda>f. real_of_int f" "\<lambda>n. 1 / 4" "\<lambda>c. 7" 0]
  by simp

text \<open>
  Claim C2. For every \<open>side_exp \<ge> 0\<close> the four corner cells of the returned terrain hold the
  seed value \<open>1/2\<close>. This holds for every amplitude function and every sequence of draws,
  so no update of the square or the diamond phase writes a corner.
\<close>

theorem call_corners_keep_seed:
  assumes "0 \<le> side_exp"
  shows "\<exists>t s'. call amp rng init side_exp s = Inr (IntTerrain t, s') \<and>
     width t = 2 ^ nat side_exp + 1 \<and> length_t t = 2 ^ nat side_exp + 1 \<and>
     heights t (0, 0) = 1 / 2 \<and> heights t (0, length_t t - 1) = 1 / 2 \<and>
     heights t (width t - 1, 0) = 1 / 2 \<and> heights t (width t - 1, length_t t - 1) = 1 / 2"
proof -
  from call_ok[OF closed_under_True _ assms, of amp rng init s]
  obtain t s' where r: "call amp rng init side_exp s = Inr (IntTerrain t, s')"
    "width t = 2 ^ nat side_exp + 1" "length_t t = 2 ^ nat side_exp + 1"
    "heights t (0, 0) = 1 / 2" "heights t (0, 2 ^ nat side_exp) = 1 / 2"
    "heights t (2 ^ nat side_exp, 0) = 1 / 2"
    "heights t (2 ^ nat side_exp, 2 ^ nat side_exp) = 1 / 2"
    by auto
  have "width t - 1 = 2 ^ nat side_exp" "length_t t - 1 = 2 ^ nat side_exp"
    using r(2,3) by simp_all
  with r show ?thesis by auto
qed

theorem call_corners_keep_seed_witness:
  "(0::int) \<le> 2 \<and>
   (\<exists>t s'. call (\<lambda>f. real_of_int f) (\<lambda>n. 1 / 4) (\<lambda>c. 7) 2 0 = Inr (IntTerrain t, s') \<and>
     width t = 2 ^ nat 2 + 1 \<and> length_t t = 2 ^ nat 2 + 1 \<and>
     heights t (0, 0) = 1 / 2 \<and> heights t (0, length_t t - 1) = 1 / 2 \<and>
     heights t (width t - 1, 0) = 1 / 2 \<and> heights t (width t - 1, length_t t - 1) = 1 / 2)"
  using call_corners_keep_seed[of 2 "\<lambda>f. real_of_int f" "\<lambda>n. 1 / 4" "\<lambda>c. 7" 0]
  by simp

text \<open>
  Claim C3. If the amplitude function returns 0 for every frequency, then for every
  \<open>side_exp \<ge> 0\<close> and every sequence of random draws every cell inside the grid of the
  returned terrain holds exactly \<open>1/2\<close>.
\<close>

theorem call_zero_amplitude_all_half:
  assumes "0 \<le> side_exp" and "\<forall>f. amp f = 0"
  shows "\<exists>t s'. call amp rng init side_exp s = Inr (IntTerrain t, s') \<and>
     width t = 2 ^ nat side_exp + 1 \<and> length_t t = 2 ^ nat side_exp + 1 \<and>
     (\<forall>x y. 0 \<le> x \<and> x < width t \<and> 0 \<le> y \<and> y < length_t t \<longrightarrow> heights t (x, y) = 1 / 2)"
proof -
  have cl: "closed_under (\<lambda>v. v = 1 / 2) amp"
    using assms(2) by (intro closed_under_half) simp
  from call_ok[OF cl _ assms(1), of rng init s]
  obtain t s' where r: "call amp rng init side_exp s = Inr (IntTerrain t, s')"
    "width t = 2 ^ nat side_exp + 1" "length_t t = 2 ^ nat side_exp + 1"
    "lattice_ok (\<lambda>v. v = 1 / 2) t 1 (2 ^ nat side_exp)"
    by auto
  have "heights t (x, y) = 1 / 2"
    if "0 \<le> x" "x < width t" "0 \<le> y" "y < length_t t" for x y
    using lattice_ok_all[OF r(4,2,3) that] .
  with r(1,2,3) show ?thesis by blast
qed

theorem call_zero_amplitude_all_half_witness:
  "(0::int) \<le> 2 \<and> (\<forall>f::int. (\<lambda>f. 0 :: real) f = 0) \<and>
   (\<exists>t s'. call (\<lambda>f. 0) (\<lambda>n. 1 / 4) (\<lambda>c. 7) 2 0 = Inr (IntTerrain t, s') \<and>
     width t = 2 ^ nat 2 + 1 \<and> length_t t = 2 ^ nat 2 + 1 \<and>
     (\<forall>x y. 0 \<le> x \<and> x < width t \<and> 0 \<le> y \<and> y < length_t t \<longrightarrow> heights t (x, y) = 1 / 2))"
  using call_zero_amplitude_all_half[of 2 "\<lambda>f. 0" "\<lambda>n. 1 / 4" "\<lambda>c. 7" 0]
  by simp

lemma call_trace_result: "snd (call_trace amp rng init side_exp s) = call amp rng init side_exp s"
  by (simp add: call_trace_def call_def Let_def divide_trace_result split: sum.splits)

text \<open>
  Claim C8. For every \<open>side_exp \<ge> 0\<close> generation terminates and returns a terrain (the model
  is a total function, and no exception is raised), and in the course of the call
  \<^verbatim>\<open>_divide\<close> is invoked exactly \<open>side_exp + 1\<close> times, with
  \<open>square_len = 2 ^ side_exp, \<dots>, 2, 1\<close> in this order; the last invocation, with
  \<open>half < 1\<close>, ends the recursion. \<open>call_trace\<close> is \<open>call\<close> together with the \<open>square_len\<close> of
  the invocations made.
\<close>

theorem call_terminates_after_levels:
  assumes "0 \<le> side_exp"
  shows "snd (call_trace amp rng init side_exp s) = call amp rng init side_exp s \<and>
     (\<exists>t s'. call amp rng init side_exp s = Inr (IntTerrain t, s')) \<and>
     fst (call_trace amp rng init side_exp s) =
       map (\<lambda>i. 2 ^ (nat side_exp - i)) [0..<nat side_exp + 1] \<and>
     length (fst (call_trace amp rng init side_exp s)) = nat side_exp + 1 \<and>
     last (fst (call_trace amp rng init side_exp s)) = 1 \<and>
     (\<exists>ter. width ter = 2 ^ nat side_exp + 1 \<and> length_t ter = 2 ^ nat side_exp + 1 \<and>
        call amp rng init side_exp s =
          (case divide amp rng ter (2 ^ nat side_exp) s of Inl e \<Rightarrow> Inl e
           | Inr (t, s') \<Rightarrow> Inr (IntTerrain t, s')) \<and>
        fst (call_trace amp rng init side_exp s) =
          map real_of_int (fst (divide_trace amp rng ter (2 ^ nat side_exp) s)))"
proof -
  let ?N = "2 ^ nat side_exp :: int"
  let ?f = "\<lambda>(x, y). init (real_of_int x, real_of_int y)"
  let ?t1 = "\<lparr>width = ?N + 1, length_t = ?N + 1,
     heights = ?f((0, 0) := 1 / 2, (0, ?N) := 1 / 2, (?N, 0) := 1 / 2, (?N, ?N) := 1 / 2)\<rparr>"
  have N: "1 \<le> ?N" by (rule one_le_power) simp
  have create: "Terrain_create ?f (?N + 1) (?N + 1) =
      Inr \<lparr>width = ?N + 1, length_t = ?N + 1, heights = ?f\<rparr>"
  proof -
    have "\<not> (?N + 1 \<le> 0 \<or> ?N + 1 \<le> 0)" using N by linarith
    then show ?thesis by (simp only: Terrain_create_def if_False)
  qed
  have corners: "initialize_corners \<lparr>width = ?N + 1, length_t = ?N + 1, heights = ?f\<rparr> (1 / 2) = Inr ?t1"
    using N by (rule initialize_corners_int)
  have tr: "fst (call_trace amp rng init side_exp s) =
      map real_of_int (fst (divide_trace amp rng ?t1 ?N s))"
    using assms by (simp add: call_trace_def Let_def create corners)
  obtain r where "divide amp rng ?t1 ?N s = Inr r"
    using divide_total[of ?t1 "nat side_exp" amp rng s] by auto
  from divide_trace_levels[OF this]
  have lv: "fst (divide_trace amp rng ?t1 ?N s) = map (\<lambda>i. 2 ^ (nat side_exp - i)) [0..<Suc (nat side_exp)]" .
  have levels: "fst (call_trace amp rng init side_exp s) =
      map (\<lambda>i. 2 ^ (nat side_exp - i)) [0..<nat side_exp + 1]"
    unfolding tr lv by (simp add: comp_def del: upt_Suc)
  have ret: "\<exists>t s'. call amp rng init side_exp s = Inr (IntTerrain t, s')"
    using call_ok[OF closed_under_True _ assms, of amp rng init s] by auto
  have len: "length (fst (call_trace amp rng init side_exp s)) = nat side_exp + 1"
    unfolding levels by simp
  have "last (map (\<lambda>i. (2::real) ^ (nat side_exp - i)) [0..<nat side_exp + 1]) = 1"
    by (simp add: last_map)
  then have lst: "last (fst (call_trace amp rng init side_exp s)) = 1"
    unfolding levels .
  have "call amp rng init side_exp s =
      (case divide amp rng ?t1 ?N s of Inl e \<Rightarrow> Inl e | Inr (t, s') \<Rightarrow> Inr (IntTerrain t, s'))"
    using assms by (simp add: call_def Let_def create corners)
  with tr have link: "\<exists>ter. width ter = ?N + 1 \<and> length_t ter = ?N + 1 \<and>
        call amp rng init side_exp s =
          (case divide amp rng ter ?N s of Inl e \<Rightarrow> Inl e | Inr (t, s') \<Rightarrow> Inr (IntTerrain t, s')) \<and>
        fst (call_trace amp rng init side_exp s) = map real_of_int (fst (divide_trace amp rng ter ?N s))"
    by (intro exI[of _ ?t1]) simp
  from call_trace_result ret levels len lst link show ?thesis by (intro conjI)
qed

theorem call_terminates_after_levels_witness:
  "(0::int) \<le> 2 \<and>
   (\<exists>t s'. call (\<lambda>f. real_of_int f) (\<lambda>n. 1 / 4) (\<lambda>c. 7) 2 0 = Inr (IntTerrain t, s')) \<and>
   fst (call_trace (\<lambda>f. real_of_int f) (\<lambda>n. 1 / 4) (\<lambda>c. 7) 2 0) = [4, 2, 1]"
proof -
  have "map (\<lambda>i. (2::real) ^ (nat 2 - i)) [0..<nat 2 + 1] = [4, 2, 1]"
    by (simp add: upt_rec)
  then show ?thesis
    using call_terminates_after_levels[of 2 "\<lambda>f. real_of_int f" "\<lambda>n. 1 / 4" "\<lambda>c. 7" 0]
    by (simp del: upt_Suc)
qed


lemma diamond_site_index_form:
  assumes k: "1 \<le> k" "k \<le> e"
    and dims: "width t = 2 ^ e + 1" "length_t t = 2 ^ e + 1"
    and site: "diamond_site t (2 ^ k) (x, y)"
  obtains h m i j where "0 < h" "(2::int) ^ k = 2 * h" "1 \<le> m" "(2::int) ^ e = h * (2 * m)"
    "x = h * i" "y = h * j" "0 \<le> i" "i \<le> 2 * m" "0 \<le> j" "j \<le> 2 * m" "odd (i + j)"
proof -
  let ?h = "(2::int) ^ (k - 1)" and ?m = "(2::int) ^ (e - k)"
  have h: "0 < ?h" by simp
  have sl: "(2::int) ^ k = 2 * ?h"
    using k(1) by (cases k) simp_all
  have m: "1 \<le> ?m" by (rule one_le_power) simp
  have "(2::int) ^ e = 2 ^ k * ?m"
    using k(2) by (simp add: power_add[symmetric])
  then have N: "(2::int) ^ e = ?h * (2 * ?m)" unfolding sl by simp
  have half: "2 * ?h div 2 = ?h" by simp
  from site have y: "y \<in> set (py_range 0 (?h * (2 * ?m) + 1) ?h)"
    and x: "x \<in> set (py_range ((y + ?h) mod (2 * ?h)) (?h * (2 * ?m) + 1) (2 * ?h))"
    unfolding diamond_site_def dims N sl half by simp_all
  from y obtain j where j: "y = ?h * j" "0 \<le> j" "j \<le> 2 * ?m"
    using row_range[OF h] by blast
  from x obtain i where i: "x = ?h * i" "0 \<le> i" "i \<le> 2 * ?m" "odd (i + j)"
    unfolding j(1) using diamond_range[OF h] by blast
  from h sl m N i(1) j(1) i(2,3) j(2,3) i(4) show ?thesis by (rule that)
qed

text \<open>
  Claim C4. At every cell \<open>(x, y)\<close> that the diamond loops visit, for a terrain of side
  length \<open>2 ^ e + 1\<close> and \<open>square_len = 2 ^ k\<close> with \<open>1 \<le> k \<le> e\<close>, the heights averaged are
  exactly those of the orthogonal neighbours at distance \<open>half\<close> that lie inside the grid
  (none is wrapped or mirrored); they are 3 when the cell is on the border of the grid and
  4 otherwise; and the cell receives the clamped sum of these heights divided by their
  number, plus the offset.
\<close>

theorem diamond_mean_over_in_grid_neighbours:
  assumes "1 \<le> k" "k \<le> e"
    and "width t = 2 ^ e + 1" "length_t t = 2 ^ e + 1"
    and "diamond_site t (2 ^ k) (x, y)"
  shows "diamond_neighbours t x y (2 ^ k div 2) =
       Inr (map (heights t) (filter (in_grid t) (orthogonal_neighbours x y (2 ^ k div 2)))) \<and>
     length (filter (in_grid t) (orthogonal_neighbours x y (2 ^ k div 2))) =
       (if on_edge t (x, y) then 3 else 4) \<and>
     update_diamond amp rng t x y (2 ^ k) s =
       Inr (t\<lparr>heights := (heights t)((x, y) := clamp_height
          (sum_list (map (heights t) (filter (in_grid t) (orthogonal_neighbours x y (2 ^ k div 2))))
             / real (length (filter (in_grid t) (orthogonal_neighbours x y (2 ^ k div 2))))
           + (rng s - 1 / 2) * amp (length_t t div 2 ^ k)))\<rparr>, s + 1)"
proof -
  from assms obtain h m i j where ix: "0 < h" "(2::int) ^ k = 2 * h" "1 \<le> m"
    "(2::int) ^ e = h * (2 * m)" "x = h * i" "y = h * j"
    "0 \<le> i" "i \<le> 2 * m" "0 \<le> j" "j \<le> 2 * m" "odd (i + j)"
    by (rule diamond_site_index_form)
  have half: "2 * h div 2 = h" by simp
  have dims: "width t = h * (2 * m) + 1" "length_t t = h * (2 * m) + 1"
    using assms(3,4) ix(4) by simp_all
  have M: "2 \<le> 2 * m" "even (2 * m)" using ix(3) by simp_all
  let ?cs = "filter (in_grid t) (orthogonal_neighbours (h * i) (h * j) h)"
  note site = diamond_site_index[OF ix(1) dims M ix(7-11)]
  have len: "length ?cs = (if on_edge t (h * i, h * j) then 3 else 4)" by (rule site(2))
  then have ne: "map (heights t) ?cs \<noteq> []" by (auto split: if_splits)
  have grid: "in_grid t (h * i, h * j)"
    using ix(7-10) by (simp add: in_grid_index[OF ix(1) dims])
  have nb: "diamond_neighbours t (h * i) (h * j) (2 * h div 2) = Inr (map (heights t) ?cs)"
    unfolding half by (rule site(1))
  have "2 * h \<noteq> 0" using ix(1) by simp
  with nb ne grid have "update_diamond amp rng t (h * i) (h * j) (2 * h) s =
     Inr (t\<lparr>heights := (heights t)((h * i, h * j) := clamp_height
          (sum_list (map (heights t) ?cs) / real (length (map (heights t) ?cs))
           + (rng s - 1 / 2) * amp (length_t t div (2 * h))))\<rparr>, s + 1)"
    by (intro update_diamond_value)
  then show ?thesis
    unfolding ix(2,5,6) half using site(1) len by simp
qed

theorem diamond_mean_over_in_grid_neighbours_witness:
  "(1::nat) \<le> 1 \<and> width \<lparr>width = 3::int, length_t = 3, heights = (\<lambda>c. 1 / 2)\<rparr> = 2 ^ 1 + 1 \<and>
   diamond_site \<lparr>width = 3, length_t = 3, heights = (\<lambda>c. 1 / 2)\<rparr> (2 ^ 1) (1, 0) \<and>
   on_edge \<lparr>width = 3, length_t = 3, heights = (\<lambda>c. 1 / 2)\<rparr> (1, 0) \<and>
   length (filter (in_grid \<lparr>width = 3, length_t = 3, heights = (\<lambda>c. 1 / 2)\<rparr>)
     (orthogonal_neighbours 1 0 (2 ^ 1 div 2))) = 3 \<and>
   diamond_neighbours \<lparr>width = 3, length_t = 3, heights = (\<lambda>c. 1 / 2)\<rparr> 1 0 (2 ^ 1 div 2) =
     Inr [1 / 2, 1 / 2, 1 / 2]"
proof -
  let ?t = "\<lparr>width = 3::int, length_t = 3, heights = (\<lambda>c. 1 / 2 :: real)\<rparr>"
  have site: "diamond_site ?t (2 ^ 1) (1, 0)"
    by (simp add: diamond_site_def py_range_mem)
  have edge: "on_edge ?t (1, 0)" by (simp add: on_edge_def)
  have "filter (in_grid ?t) (orthogonal_neighbours 1 0 (2 ^ 1 div 2)) = [(0, 0), (2, 0), (1, 1)]"
    by (simp add: orthogonal_neighbours_def in_grid_def)
  with diamond_mean_over_in_grid_neighbours[of 1 1 ?t 1 0, OF _ _ _ _ site] site edge
  show ?thesis by simp
qed










lemma py_range_0_1: "py_range 0 1 1 = [0]"
  by (subst py_range.simps, subst py_range.simps) simp

text \<open>
  Claim C9. For a grid of \<open>1 \<times> 1\<close> squares, which has four corners, \<open>init_gradients\<close> makes
  one gradient vector: the list it builds has \<open>length_in_squares\<close> rows of
  \<open>width_in_squares\<close> vectors, one per square and not one per corner. (The vector has the
  given magnitude: here \<open>(0, 1)\<close> for magnitude 1.)
\<close>

theorem init_gradients_one_vector_for_one_square:
  "init_gradients (\<lambda>n. 0) 1 1 1 0 = Inr ([[(0, 1)]], 1)"
  by (simp add: init_gradients_def py_range_0_1 gradient_vector_def set_grad_vec_def)

end
